theory Spec2Isabelle
  imports Main "HOL-Library.Word" "HOL-Library.Monad_Syntax" "HOL-Library.Char_ord"
    "HOL-Library.List_Lexorder" "HOL-Library.Multiset"
begin

section \<open>Records and references\<close>

text \<open>
  \<^verbatim>\<open>struct Passenger { std::string fullName; int cabinNumber;
                     std::string cabinType; std::string destinationPort; };\<close>
  The search key is \<open>fullName\<close>. Strings are byte strings; \<open>std::string\<close>'s
  \<open>==\<close> is list equality and its \<open><\<close> is the lexicographic order on unsigned bytes
  (the order of \<open>List_Lexorder\<close> over \<open>Char_ord\<close>).

  The containers store \<open>const Passenger*\<close> pointing into the dataset vector. The
  model writes such a pointer as the position of the record in that vector
  (\<open>&data[i]\<close> is \<open>i\<close>); an operation that receives \<open>const Passenger& p\<close> receives the
  dataset and the position, reads \<open>p.fullName\<close> as \<open>fullName (data ! i)\<close> and stores
  \<open>&p\<close> as \<open>i\<close>.
\<close>

record Passenger =
  fullName :: string
  cabinNumber :: int
  cabinType :: string
  destinationPort :: string

type_synonym PassengerPtr = nat

section \<open>Linear search\<close>

text \<open>
  \<^verbatim>\<open>std::vector<size_t> idx;
  for (size_t i = 0; i < arr.size(); ++i)
      if (arr[i].fullName == key) idx.push_back(i);
  return idx;\<close>
  The loop is the recursion on \<open>i\<close> with the vector \<open>idx\<close> as accumulator.
\<close>

function linearSearch_loop :: "Passenger list \<Rightarrow> string \<Rightarrow> nat \<Rightarrow> nat list \<Rightarrow> nat list" where
  "linearSearch_loop arr k i idx =
     (if i < length arr
      then linearSearch_loop arr k (Suc i) (if fullName (arr ! i) = k then idx @ [i] else idx)
      else idx)"
  by pat_completeness auto
termination
  by (relation "measure (\<lambda>(arr, k, i, idx). length arr - i)") auto

declare linearSearch_loop.simps [simp del]

definition linearSearch :: "Passenger list \<Rightarrow> string \<Rightarrow> nat list" where
  "linearSearch arr k = linearSearch_loop arr k 0 []"

section \<open>Unbalanced binary search tree\<close>

text \<open>
  \<^verbatim>\<open>struct BSTNode { std::string key; std::vector<const Passenger*> payload;
                   BSTNode* left = nullptr; BSTNode* right = nullptr; };\<close>
  Every node is owned by exactly one link (there are no parent pointers and no sharing),
  so the pointer structure is the algebraic tree; \<open>nullptr\<close> is \<open>BSTNull\<close>.
\<close>

datatype BST = BSTNull | BSTNode string "PassengerPtr list" BST BST

text \<open>
  The \<^verbatim>\<open>while (true)\<close> loop of \<open>BST::insert\<close>, started at a non-null \<open>cur\<close>:
  \<^verbatim>\<open>if (p.fullName == cur->key) { cur->payload.push_back(&p); return; }
  else if (p.fullName < cur->key) {
      if (!cur->left) cur->left = new BSTNode{p.fullName};
      cur = cur->left;
  } else {
      if (!cur->right) cur->right = new BSTNode{p.fullName};
      cur = cur->right;
  }\<close>
  A missing child is first created with an empty payload; the next iteration then
  finds the key equal and appends the reference. \<open>cur\<close> is never null inside the loop.
\<close>

function BST_insert_loop :: "string \<Rightarrow> PassengerPtr \<Rightarrow> BST \<Rightarrow> BST" where
  "BST_insert_loop k p BSTNull = BSTNull"
| "BST_insert_loop k p (BSTNode ck pl l r) =
     (if k = ck then BSTNode ck (pl @ [p]) l r
      else if k < ck then
        BSTNode ck pl (BST_insert_loop k p (if l = BSTNull then BSTNode k [] BSTNull BSTNull else l)) r
      else
        BSTNode ck pl l (BST_insert_loop k p (if r = BSTNull then BSTNode k [] BSTNull BSTNull else r)))"
  by pat_completeness auto
termination
  by (relation "measure (\<lambda>(k, p, t). 2 * size t +
        (case t of BSTNull \<Rightarrow> 0 | BSTNode ck _ _ _ \<Rightarrow> if ck = k then 0 else 1))")
     (auto split: BST.splits)

text \<open>
  \<^verbatim>\<open>if (!root) { root = new BSTNode{p.fullName}; root->payload.push_back(&p); return; }\<close>
  and otherwise the loop from \<open>root\<close>.
\<close>

definition BST_insert :: "Passenger list \<Rightarrow> PassengerPtr \<Rightarrow> BST \<Rightarrow> BST" where
  "BST_insert data p root =
     (if root = BSTNull then BSTNode (fullName (data ! p)) [p] BSTNull BSTNull
      else BST_insert_loop (fullName (data ! p)) p root)"

text \<open>
  \<^verbatim>\<open>BSTNode* cur = root;
  while (cur) {
      if (key == cur->key) return cur->payload;
      cur = key < cur->key ? cur->left : cur->right;
  }
  return {};\<close>
\<close>

fun BST_search :: "string \<Rightarrow> BST \<Rightarrow> PassengerPtr list" where
  "BST_search k BSTNull = []"
| "BST_search k (BSTNode ck pl l r) =
     (if k = ck then pl else BST_search k (if k < ck then l else r))"

text \<open>\<^verbatim>\<open>BST bst; for (const auto& p : data) bst.insert(p);\<close>\<close>

definition BST_build :: "Passenger list \<Rightarrow> BST" where
  "BST_build data = fold (BST_insert data) [0..<length data] BSTNull"


section \<open>Chained hash table\<close>

text \<open>
  \<^verbatim>\<open>struct Bucket { std::string key; std::vector<const Passenger*> payload;
                  Bucket* next = nullptr; };
  std::vector<Bucket*> table;  size_t collisions = 0;\<close>
  A chain is singly linked and owned by its bucket slot, so it is the list of its
  entries from the head; an empty slot (\<open>nullptr\<close>) is the empty list. \<open>size_t\<close> is
  the 64-bit unsigned word.
\<close>

type_synonym size_t = "64 word"

record Entry =
  key :: string
  payload :: "PassengerPtr list"

record HashTable =
  table :: "Entry list list"
  collisions :: size_t

text \<open>
  \<open>static_cast<size_t>(c)\<close> for a \<open>char c\<close>: whether \<open>char\<close> is signed is left to the
  implementation, so the conversion takes the choice as its first argument
  (\<open>True\<close>: the byte is sign-extended; \<open>False\<close>: zero-extended). The two agree on
  bytes below 128.
\<close>

definition size_t_of_char :: "bool \<Rightarrow> char \<Rightarrow> size_t" where
  "size_t_of_char char_signed c =
     (if char_signed then signed (of_char c :: 8 word) else of_char c)"

text \<open>
  \<^verbatim>\<open>const size_t P = 31;  size_t h = 0;
  for (char c : s) h = (h * P + static_cast<size_t>(c)) % mod;
  return h;\<close>
  The arithmetic is \<open>size_t\<close>'s: \<open>*\<close> and \<open>+\<close> wrap. \<open>% 0\<close> is undefined in C++; the
  model returns \<open>None\<close> there.
\<close>

fun hashStr_loop :: "bool \<Rightarrow> string \<Rightarrow> size_t \<Rightarrow> size_t \<Rightarrow> size_t option" where
  "hashStr_loop sc [] m h = Some h"
| "hashStr_loop sc (c # s) m h =
     (if m = 0 then None else hashStr_loop sc s m ((h * 31 + size_t_of_char sc c) mod m))"

definition hashStr :: "bool \<Rightarrow> string \<Rightarrow> size_t \<Rightarrow> size_t option" where
  "hashStr sc s m = hashStr_loop sc s m 0"

text \<open>\<^verbatim>\<open>explicit HashTable(size_t nBuckets) : table(nBuckets, nullptr) {}\<close>\<close>

definition HashTable_new :: "size_t \<Rightarrow> HashTable" where
  "HashTable_new nBuckets = \<lparr>table = replicate (unat nBuckets) [], collisions = 0\<rparr>"

text \<open>
  The scan of a non-empty chain in \<open>HashTable::insert\<close>:
  \<^verbatim>\<open>Bucket* prev = nullptr;
  while (cur) {
      if (cur->key == p.fullName) { cur->payload.push_back(&p); return; }
      prev = cur;  cur = cur->next;
  }
  prev->next = new Bucket{p.fullName};
  prev->next->payload.push_back(&p);\<close>
\<close>

fun chain_insert :: "string \<Rightarrow> PassengerPtr \<Rightarrow> Entry list \<Rightarrow> Entry list" where
  "chain_insert k p [] = [\<lparr>key = k, payload = [p]\<rparr>]"
| "chain_insert k p (e # es) =
     (if key e = k then e\<lparr>payload := payload e @ [p]\<rparr> # es else e # chain_insert k p es)"

text \<open>
  \<^verbatim>\<open>size_t idx = hashStr(p.fullName, table.size());
  Bucket* cur = table[idx];
  if (!cur) { table[idx] = new Bucket{p.fullName};
              table[idx]->payload.push_back(&p); return; }
  collisions++;
  ... scan ...\<close>
  \<open>table[idx]\<close> outside the vector is undefined: \<open>None\<close>.
\<close>

definition HashTable_insert ::
  "bool \<Rightarrow> Passenger list \<Rightarrow> PassengerPtr \<Rightarrow> HashTable \<Rightarrow> HashTable option" where
  "HashTable_insert sc data p t = do {
     idx \<leftarrow> hashStr sc (fullName (data ! p)) (of_nat (length (table t)));
     if unat idx < length (table t) then
       (let cur = table t ! unat idx in
        if cur = [] then
          Some (t\<lparr>table := (table t)[unat idx := [\<lparr>key = fullName (data ! p), payload = [p]\<rparr>]]\<rparr>)
        else
          Some (t\<lparr>collisions := collisions t + 1,
                  table := (table t)[unat idx := chain_insert (fullName (data ! p)) p cur]\<rparr>))
     else None
   }"

text \<open>
  \<^verbatim>\<open>size_t idx = hashStr(key, table.size());
  Bucket* cur = table[idx];
  while (cur) { if (cur->key == key) return cur->payload;  cur = cur->next; }
  return {};\<close>
\<close>

fun chain_search :: "string \<Rightarrow> Entry list \<Rightarrow> PassengerPtr list" where
  "chain_search k [] = []"
| "chain_search k (e # es) = (if key e = k then payload e else chain_search k es)"

definition HashTable_search :: "bool \<Rightarrow> string \<Rightarrow> HashTable \<Rightarrow> PassengerPtr list option" where
  "HashTable_search sc k t = do {
     idx \<leftarrow> hashStr sc k (of_nat (length (table t)));
     if unat idx < length (table t) then Some (chain_search k (table t ! unat idx)) else None
   }"

definition collisionCount :: "HashTable \<Rightarrow> size_t" where
  "collisionCount t = collisions t"

text \<open>\<^verbatim>\<open>HashTable ht(nBuckets); for (const auto& p : data) ht.insert(p);\<close>\<close>

fun HashTable_inserts ::
  "bool \<Rightarrow> Passenger list \<Rightarrow> PassengerPtr list \<Rightarrow> HashTable \<Rightarrow> HashTable option" where
  "HashTable_inserts sc data [] t = Some t"
| "HashTable_inserts sc data (p # ps) t =
     (case HashTable_insert sc data p t of None \<Rightarrow> None | Some t' \<Rightarrow> HashTable_inserts sc data ps t')"

definition HashTable_build :: "bool \<Rightarrow> size_t \<Rightarrow> Passenger list \<Rightarrow> HashTable option" where
  "HashTable_build sc nBuckets data =
     HashTable_inserts sc data [0..<length data] (HashTable_new nBuckets)"


section \<open>Red-black tree\<close>

text \<open>
  \<^verbatim>\<open>enum Color { RED, BLACK };
  struct RBTNode { std::string key; std::vector<const Passenger*> payload;
                   Color color = RED; RBTNode* parent = nullptr;
                   RBTNode* left = nullptr; RBTNode* right = nullptr; };
  class RBTree { RBTNode* root = nullptr; ... };\<close>
  The nodes carry parent links and are rewired in place by the rotations, so the
  tree is modelled on an explicit store: a pointer is \<open>None\<close> (\<open>nullptr\<close>) or the address
  of a node, and the store maps the addresses of the allocated nodes to their
  contents. \<open>new RBTNode\<close> takes the next unused address, counted by \<open>allocated\<close>.
  Dereferencing \<open>nullptr\<close> (or an address that holds no node) is undefined in C++: every
  operation returns \<open>None\<close> there.
\<close>

datatype Color = RED | BLACK

type_synonym ptr = "nat option"

record RBTNode = Entry +
  color :: Color
  parent :: ptr
  left :: ptr
  right :: ptr

record RBTree =
  store :: "nat \<rightharpoonup> RBTNode"
  root :: ptr
  allocated :: nat

text \<open>\<open>fld f t p\<close> reads \<open>p->f\<close>; \<open>assign p u t\<close> writes one field of \<open>*p\<close>.\<close>

definition deref :: "RBTree \<Rightarrow> ptr \<Rightarrow> RBTNode option" where
  "deref t p = (case p of None \<Rightarrow> None | Some a \<Rightarrow> store t a)"

definition fld :: "(RBTNode \<Rightarrow> 'a) \<Rightarrow> RBTree \<Rightarrow> ptr \<Rightarrow> 'a option" where
  "fld f t p = map_option f (deref t p)"

definition assign :: "ptr \<Rightarrow> (RBTNode \<Rightarrow> RBTNode) \<Rightarrow> RBTree \<Rightarrow> RBTree option" where
  "assign p u t =
     (case p of None \<Rightarrow> None
      | Some a \<Rightarrow> (case store t a of None \<Rightarrow> None
                  | Some n \<Rightarrow> Some (t\<lparr>store := (store t)(a \<mapsto> u n)\<rparr>)))"

text \<open>
  \<^verbatim>\<open>void rotateLeft(RBTNode* x) {
      RBTNode* y = x->right;
      x->right = y->left;
      if (y->left) y->left->parent = x;
      y->parent = x->parent;
      if (!x->parent) root = y;
      else if (x == x->parent->left) x->parent->left = y;
      else                           x->parent->right = y;
      y->left = x;
      x->parent = y;
  }\<close>
  Each line reads the store as the lines before it left it.
\<close>

definition rotateLeft :: "ptr \<Rightarrow> RBTree \<Rightarrow> RBTree option" where
  "rotateLeft x t = do {
     y \<leftarrow> fld right t x;
     yl \<leftarrow> fld left t y;
     t \<leftarrow> assign x (\<lambda>n. n\<lparr>right := yl\<rparr>) t;
     yl \<leftarrow> fld left t y;
     t \<leftarrow> (if yl \<noteq> None then assign yl (\<lambda>n. n\<lparr>parent := x\<rparr>) t else Some t);
     xp \<leftarrow> fld parent t x;
     t \<leftarrow> assign y (\<lambda>n. n\<lparr>parent := xp\<rparr>) t;
     xp \<leftarrow> fld parent t x;
     t \<leftarrow> (if xp = None then Some (t\<lparr>root := y\<rparr>)
          else do {
            xpl \<leftarrow> fld left t xp;
            if x = xpl then assign xp (\<lambda>n. n\<lparr>left := y\<rparr>) t
            else assign xp (\<lambda>n. n\<lparr>right := y\<rparr>) t
          });
     t \<leftarrow> assign y (\<lambda>n. n\<lparr>left := x\<rparr>) t;
     assign x (\<lambda>n. n\<lparr>parent := y\<rparr>) t
   }"

text \<open>
  \<^verbatim>\<open>void rotateRight(RBTNode* y) {
      RBTNode* x = y->left;
      y->left = x->right;
      if (x->right) x->right->parent = y;
      x->parent = y->parent;
      if (!y->parent) root = x;
      else if (y == y->parent->left) y->parent->left = x;
      else                           y->parent->right = x;
      x->right = y;
      y->parent = x;
  }\<close>
\<close>

definition rotateRight :: "ptr \<Rightarrow> RBTree \<Rightarrow> RBTree option" where
  "rotateRight y t = do {
     x \<leftarrow> fld left t y;
     xr \<leftarrow> fld right t x;
     t \<leftarrow> assign y (\<lambda>n. n\<lparr>left := xr\<rparr>) t;
     xr \<leftarrow> fld right t x;
     t \<leftarrow> (if xr \<noteq> None then assign xr (\<lambda>n. n\<lparr>parent := y\<rparr>) t else Some t);
     yp \<leftarrow> fld parent t y;
     t \<leftarrow> assign x (\<lambda>n. n\<lparr>parent := yp\<rparr>) t;
     yp \<leftarrow> fld parent t y;
     t \<leftarrow> (if yp = None then Some (t\<lparr>root := x\<rparr>)
          else do {
            ypl \<leftarrow> fld left t yp;
            if y = ypl then assign yp (\<lambda>n. n\<lparr>left := x\<rparr>) t
            else assign yp (\<lambda>n. n\<lparr>right := x\<rparr>) t
          });
     t \<leftarrow> assign x (\<lambda>n. n\<lparr>right := y\<rparr>) t;
     assign y (\<lambda>n. n\<lparr>parent := x\<rparr>) t
   }"

text \<open>
  The loop of \<open>fixInsert\<close>. Its condition
  \<^verbatim>\<open>z->parent && z->parent->color == RED\<close>
\<close>

definition fixInsert_cond :: "ptr \<Rightarrow> RBTree \<Rightarrow> bool option" where
  "fixInsert_cond z t = do {
     zp \<leftarrow> fld parent t z;
     if zp = None then Some False
     else do { c \<leftarrow> fld color t zp; Some (c = RED) }
   }"

text \<open>
  and its body, which returns the new \<open>z\<close> with the store:
  \<^verbatim>\<open>if (z->parent == z->parent->parent->left) {
      RBTNode* y = z->parent->parent->right;
      if (y && y->color == RED) {
          z->parent->color = BLACK;
          y->color = BLACK;
          z->parent->parent->color = RED;
          z = z->parent->parent;
      } else {
          if (z == z->parent->right) { z = z->parent; rotateLeft(z); }
          z->parent->color = BLACK;
          z->parent->parent->color = RED;
          rotateRight(z->parent->parent);
      }
  } else { ... the same with left and right exchanged ... }\<close>
\<close>

definition fixInsert_body :: "ptr \<Rightarrow> RBTree \<Rightarrow> (ptr \<times> RBTree) option" where
  "fixInsert_body z t = do {
     zp \<leftarrow> fld parent t z;
     zpp \<leftarrow> fld parent t zp;
     zppl \<leftarrow> fld left t zpp;
     if zp = zppl then do {
       y \<leftarrow> fld right t zpp;
       yred \<leftarrow> (if y = None then Some False else do { c \<leftarrow> fld color t y; Some (c = RED) });
       if yred then do {
         zp \<leftarrow> fld parent t z;
         t \<leftarrow> assign zp (\<lambda>n. n\<lparr>color := BLACK\<rparr>) t;
         t \<leftarrow> assign y (\<lambda>n. n\<lparr>color := BLACK\<rparr>) t;
         zp \<leftarrow> fld parent t z;
         zpp \<leftarrow> fld parent t zp;
         t \<leftarrow> assign zpp (\<lambda>n. n\<lparr>color := RED\<rparr>) t;
         zp \<leftarrow> fld parent t z;
         zpp \<leftarrow> fld parent t zp;
         Some (zpp, t)
       } else do {
         zp \<leftarrow> fld parent t z;
         zpr \<leftarrow> fld right t zp;
         (z, t) \<leftarrow> (if z = zpr then do { t \<leftarrow> rotateLeft zp t; Some (zp, t) }
                   else Some (z, t));
         zp \<leftarrow> fld parent t z;
         t \<leftarrow> assign zp (\<lambda>n. n\<lparr>color := BLACK\<rparr>) t;
         zp \<leftarrow> fld parent t z;
         zpp \<leftarrow> fld parent t zp;
         t \<leftarrow> assign zpp (\<lambda>n. n\<lparr>color := RED\<rparr>) t;
         zp \<leftarrow> fld parent t z;
         zpp \<leftarrow> fld parent t zp;
         t \<leftarrow> rotateRight zpp t;
         Some (z, t)
       }
     } else do {
       y \<leftarrow> fld left t zpp;
       yred \<leftarrow> (if y = None then Some False else do { c \<leftarrow> fld color t y; Some (c = RED) });
       if yred then do {
         zp \<leftarrow> fld parent t z;
         t \<leftarrow> assign zp (\<lambda>n. n\<lparr>color := BLACK\<rparr>) t;
         t \<leftarrow> assign y (\<lambda>n. n\<lparr>color := BLACK\<rparr>) t;
         zp \<leftarrow> fld parent t z;
         zpp \<leftarrow> fld parent t zp;
         t \<leftarrow> assign zpp (\<lambda>n. n\<lparr>color := RED\<rparr>) t;
         zp \<leftarrow> fld parent t z;
         zpp \<leftarrow> fld parent t zp;
         Some (zpp, t)
       } else do {
         zp \<leftarrow> fld parent t z;
         zpl \<leftarrow> fld left t zp;
         (z, t) \<leftarrow> (if z = zpl then do { t \<leftarrow> rotateRight zp t; Some (zp, t) }
                   else Some (z, t));
         zp \<leftarrow> fld parent t z;
         t \<leftarrow> assign zp (\<lambda>n. n\<lparr>color := BLACK\<rparr>) t;
         zp \<leftarrow> fld parent t z;
         zpp \<leftarrow> fld parent t zp;
         t \<leftarrow> assign zpp (\<lambda>n. n\<lparr>color := RED\<rparr>) t;
         zp \<leftarrow> fld parent t z;
         zpp \<leftarrow> fld parent t zp;
         t \<leftarrow> rotateLeft zpp t;
         Some (z, t)
       }
     }
   }"

text \<open>
  \<^verbatim>\<open>while (cond) { body }\<close>: the loop need not terminate on an arbitrary store (a
  cycle of parent links), so it is a partial function; \<open>None\<close> is undefined behaviour
  or divergence.
\<close>

partial_function (option) fixInsert_loop :: "ptr \<Rightarrow> RBTree \<Rightarrow> RBTree option" where
  "fixInsert_loop z t = do {
     c \<leftarrow> fixInsert_cond z t;
     if c then do { (z', t') \<leftarrow> fixInsert_body z t; fixInsert_loop z' t' }
     else Some t
   }"

declare fixInsert_loop.simps [code]

text \<open>\<^verbatim>\<open>void fixInsert(RBTNode* z) { while (...) {...}  root->color = BLACK; }\<close>\<close>

definition fixInsert :: "ptr \<Rightarrow> RBTree \<Rightarrow> RBTree option" where
  "fixInsert z t = do {
     t \<leftarrow> fixInsert_loop z t;
     assign (root t) (\<lambda>n. n\<lparr>color := BLACK\<rparr>) t
   }"

text \<open>
  The descent of \<open>RBTree::insert\<close>:
  \<^verbatim>\<open>RBTNode* y = nullptr;  RBTNode* x = root;
  while (x) {
      y = x;
      if (p.fullName == x->key) { x->payload.push_back(&p); return; }
      x = (p.fullName < x->key) ? x->left : x->right;
  }\<close>
  The loop either returns from \<open>insert\<close> with the payload extended (\<open>Inl\<close> of the new
  state) or falls through with the last node visited in \<open>y\<close> (\<open>Inr y\<close>).
\<close>

partial_function (option) insert_descend ::
  "string \<Rightarrow> PassengerPtr \<Rightarrow> ptr \<Rightarrow> ptr \<Rightarrow> RBTree \<Rightarrow> (RBTree + ptr) option" where
  "insert_descend k p y x t =
     (if x = None then Some (Inr y)
      else do {
        xk \<leftarrow> fld key t x;
        if k = xk then do {
          t \<leftarrow> assign x (\<lambda>n. n\<lparr>payload := payload n @ [p]\<rparr>) t;
          Some (Inl t)
        } else do {
          xk \<leftarrow> fld key t x;
          nxt \<leftarrow> (if k < xk then fld left t x else fld right t x);
          insert_descend k p x nxt t
        }
      })"

declare insert_descend.simps [code]

text \<open>
  \<^verbatim>\<open>RBTNode* z = new RBTNode;
  z->key = p.fullName;
  z->payload.push_back(&p);
  z->parent = y;
  if (!y)               root = z;
  else if (p.fullName < y->key) y->left  = z;
  else                           y->right = z;
  z->color = RED;
  fixInsert(z);\<close>
\<close>

definition new_RBTNode :: "RBTree \<Rightarrow> ptr \<times> RBTree" where
  "new_RBTNode t =
     (Some (allocated t),
      t\<lparr>store := (store t)(allocated t \<mapsto>
           \<lparr>key = [], payload = [], color = RED, parent = None, left = None, right = None\<rparr>),
        allocated := Suc (allocated t)\<rparr>)"

definition RBTree_insert :: "Passenger list \<Rightarrow> PassengerPtr \<Rightarrow> RBTree \<Rightarrow> RBTree option" where
  "RBTree_insert data p t = do {
     r \<leftarrow> insert_descend (fullName (data ! p)) p None (root t) t;
     case r of
       Inl t' \<Rightarrow> Some t'
     | Inr y \<Rightarrow> do {
         (z, t) \<leftarrow> Some (new_RBTNode t);
         t \<leftarrow> assign z (\<lambda>n. n\<lparr>key := fullName (data ! p)\<rparr>) t;
         t \<leftarrow> assign z (\<lambda>n. n\<lparr>payload := payload n @ [p]\<rparr>) t;
         t \<leftarrow> assign z (\<lambda>n. n\<lparr>parent := y\<rparr>) t;
         t \<leftarrow> (if y = None then Some (t\<lparr>root := z\<rparr>)
              else do {
                yk \<leftarrow> fld key t y;
                if fullName (data ! p) < yk then assign y (\<lambda>n. n\<lparr>left := z\<rparr>) t
                else assign y (\<lambda>n. n\<lparr>right := z\<rparr>) t
              });
         t \<leftarrow> assign z (\<lambda>n. n\<lparr>color := RED\<rparr>) t;
         fixInsert z t
       }
   }"

text \<open>
  \<^verbatim>\<open>RBTNode* cur = root;
  while (cur) {
      if (key == cur->key) return cur->payload;
      cur = (key < cur->key) ? cur->left : cur->right;
  }
  return {};\<close>
\<close>

partial_function (option) search_loop :: "string \<Rightarrow> ptr \<Rightarrow> RBTree \<Rightarrow> PassengerPtr list option" where
  "search_loop k cur t =
     (if cur = None then Some []
      else do {
        ck \<leftarrow> fld key t cur;
        if k = ck then fld payload t cur
        else do {
          ck \<leftarrow> fld key t cur;
          nxt \<leftarrow> (if k < ck then fld left t cur else fld right t cur);
          search_loop k nxt t
        }
      })"

declare search_loop.simps [code]

definition RBTree_search :: "string \<Rightarrow> RBTree \<Rightarrow> PassengerPtr list option" where
  "RBTree_search k t = search_loop k (root t) t"

definition RBTree_empty :: RBTree where
  "RBTree_empty = \<lparr>store = Map.empty, root = None, allocated = 0\<rparr>"

text \<open>\<^verbatim>\<open>RBTree rbt; for (const auto& p : data) rbt.insert(p);\<close>\<close>

fun RBTree_inserts :: "Passenger list \<Rightarrow> PassengerPtr list \<Rightarrow> RBTree \<Rightarrow> RBTree option" where
  "RBTree_inserts data [] t = Some t"
| "RBTree_inserts data (p # ps) t =
     (case RBTree_insert data p t of None \<Rightarrow> None | Some t' \<Rightarrow> RBTree_inserts data ps t')"

definition RBTree_build :: "Passenger list \<Rightarrow> RBTree option" where
  "RBTree_build data = RBTree_inserts data [0..<length data] RBTree_empty"


section \<open>Dataset generator\<close>









section \<open>Benchmark harness\<close>












section \<open>Specification vocabulary\<close>

text \<open>A record with a given key, for the concrete datasets of the examples.\<close>

definition passenger :: "string \<Rightarrow> Passenger" where
  "passenger k = \<lparr>fullName = k, cabinNumber = 1, cabinType = ''1'', destinationPort = ''port''\<rparr>"

subsection \<open>Hash table\<close>

text \<open>One step of the rolling hash, in \<open>size_t\<close> arithmetic.\<close>

definition hash_step :: "bool \<Rightarrow> size_t \<Rightarrow> char \<Rightarrow> size_t \<Rightarrow> size_t" where
  "hash_step sc m c h = (h * 31 + size_t_of_char sc c) mod m"

text \<open>
  A table as the constructor makes it for a bucket count greater than zero: the
  vector has at least one slot and its size fits \<open>size_t\<close>.
\<close>

definition ht_ok :: "HashTable \<Rightarrow> bool" where
  "ht_ok t = (0 < length (table t) \<and> length (table t) < 2 ^ 64)"

text \<open>The slot a key is hashed to, and the chain found there.\<close>

definition bucket_index :: "bool \<Rightarrow> string \<Rightarrow> HashTable \<Rightarrow> nat" where
  "bucket_index sc k t = unat (fold (hash_step sc (of_nat (length (table t)))) k 0)"

definition target_bucket :: "bool \<Rightarrow> string \<Rightarrow> HashTable \<Rightarrow> Entry list" where
  "target_bucket sc k t = table t ! bucket_index sc k t"

text \<open>The value of the key's bytes as a polynomial in 31, over the natural numbers.\<close>

definition byte_poly :: "string \<Rightarrow> nat" where
  "byte_poly s = fold (\<lambda>c a. a * 31 + of_char c) s 0"


subsection \<open>Datasets\<close>

text \<open>The references among \<open>ps\<close> whose record has key \<open>k\<close>, in the order of \<open>ps\<close>.\<close>

definition matches :: "Passenger list \<Rightarrow> string \<Rightarrow> PassengerPtr list \<Rightarrow> PassengerPtr list" where
  "matches data k ps = filter (\<lambda>i. fullName (data ! i) = k) ps"

subsection \<open>Red-black tree: the tree held by a store\<close>

text \<open>
  The tree a store holds is described by an algebraic tree that carries, for every node,
  its address, key, payload and colour. \<open>rep h par t\<close> says that the store \<open>h\<close> holds
  \<open>t\<close> below a node \<open>par\<close>: every node of \<open>t\<close> is stored at its address with exactly these
  contents, its child links point to the roots of its subtrees, and its parent link
  points to the node above (\<open>par\<close> for the root of \<open>t\<close>). A position inside a tree is a
  subtree together with the list of frames from it up to the root; \<open>repc\<close> is \<open>rep\<close> for
  the frames, and \<open>zrep\<close> collects what it means for an \<open>RBTree\<close> to hold the tree
  \<open>plug fs t\<close>, seen from the position of \<open>t\<close>, with all addresses distinct.
\<close>

datatype tree = Leaf | Node tree nat string "PassengerPtr list" Color tree

fun ptr_of :: "tree \<Rightarrow> ptr" where
  "ptr_of Leaf = None"
| "ptr_of (Node l a k ps c r) = Some a"

fun rep :: "(nat \<rightharpoonup> RBTNode) \<Rightarrow> ptr \<Rightarrow> tree \<Rightarrow> bool" where
  "rep h par Leaf = True"
| "rep h par (Node l a k ps c r) =
     (h a = Some \<lparr>key = k, payload = ps, color = c, parent = par,
                  left = ptr_of l, right = ptr_of r\<rparr>
      \<and> rep h (Some a) l \<and> rep h (Some a) r)"

fun addrs :: "tree \<Rightarrow> nat list" where
  "addrs Leaf = []"
| "addrs (Node l a k ps c r) = addrs l @ a # addrs r"

fun entries :: "tree \<Rightarrow> (string \<times> PassengerPtr list) list" where
  "entries Leaf = []"
| "entries (Node l a k ps c r) = entries l @ (k, ps) # entries r"

datatype frame =
    LeftOf nat string "PassengerPtr list" Color tree
  | RightOf tree nat string "PassengerPtr list" Color

fun plug :: "frame list \<Rightarrow> tree \<Rightarrow> tree" where
  "plug [] t = t"
| "plug (LeftOf a k ps c r # fs) t = plug fs (Node t a k ps c r)"
| "plug (RightOf l a k ps c # fs) t = plug fs (Node l a k ps c t)"

fun faddr :: "frame \<Rightarrow> nat" where
  "faddr (LeftOf a k ps c r) = a"
| "faddr (RightOf l a k ps c) = a"

fun top :: "frame list \<Rightarrow> ptr" where
  "top [] = None"
| "top (f # fs) = Some (faddr f)"

fun croot :: "frame list \<Rightarrow> ptr \<Rightarrow> ptr" where
  "croot [] hp = hp"
| "croot (f # fs) hp = croot fs (Some (faddr f))"

fun repc :: "(nat \<rightharpoonup> RBTNode) \<Rightarrow> frame list \<Rightarrow> ptr \<Rightarrow> bool" where
  "repc h [] hp = True"
| "repc h (LeftOf a k ps c r # fs) hp =
     (h a = Some \<lparr>key = k, payload = ps, color = c, parent = top fs,
                  left = hp, right = ptr_of r\<rparr>
      \<and> rep h (Some a) r \<and> repc h fs (Some a))"
| "repc h (RightOf l a k ps c # fs) hp =
     (h a = Some \<lparr>key = k, payload = ps, color = c, parent = top fs,
                  left = ptr_of l, right = hp\<rparr>
      \<and> rep h (Some a) l \<and> repc h fs (Some a))"

fun zaddrs :: "frame list \<Rightarrow> nat list" where
  "zaddrs [] = []"
| "zaddrs (LeftOf a k ps c r # fs) = a # addrs r @ zaddrs fs"
| "zaddrs (RightOf l a k ps c # fs) = a # addrs l @ zaddrs fs"

definition zrep :: "RBTree \<Rightarrow> frame list \<Rightarrow> tree \<Rightarrow> bool" where
  "zrep T fs t = (rep (store T) (top fs) t \<and> repc (store T) fs (ptr_of t)
                  \<and> root T = croot fs (ptr_of t) \<and> distinct (addrs t @ zaddrs fs))"

fun paint :: "Color \<Rightarrow> frame \<Rightarrow> frame" where
  "paint c' (LeftOf a k ps c r) = LeftOf a k ps c' r"
| "paint c' (RightOf l a k ps c) = RightOf l a k ps c'"

fun fcolor :: "frame \<Rightarrow> Color" where
  "fcolor (LeftOf a k ps c r) = c"
| "fcolor (RightOf l a k ps c) = c"

fun rc :: "tree \<Rightarrow> Color" where
  "rc Leaf = BLACK"
| "rc (Node l a k ps c r) = c"

fun inv_c :: "tree \<Rightarrow> bool" where
  "inv_c Leaf = True"
| "inv_c (Node l a k ps c r) =
     (inv_c l \<and> inv_c r \<and> (c = RED \<longrightarrow> rc l = BLACK \<and> rc r = BLACK))"

fun bh :: "tree \<Rightarrow> nat" where
  "bh Leaf = 0"
| "bh (Node l a k ps c r) = (if c = BLACK then Suc (bh l) else bh l)"

fun inv_h :: "tree \<Rightarrow> bool" where
  "inv_h Leaf = True"
| "inv_h (Node l a k ps c r) = (inv_h l \<and> inv_h r \<and> bh l = bh r)"

fun nodes :: "tree \<Rightarrow> (nat \<times> string \<times> PassengerPtr list) list" where
  "nodes Leaf = []"
| "nodes (Node l a k ps c r) = nodes l @ (a, k, ps) # nodes r"

fun cinv :: "frame list \<Rightarrow> Color \<Rightarrow> nat \<Rightarrow> bool" where
  "cinv [] c n = True"
| "cinv (LeftOf a k ps col r # fs) c n =
     (inv_c r \<and> inv_h r \<and> bh r = n \<and> (col = RED \<longrightarrow> c = BLACK \<and> rc r = BLACK)
      \<and> cinv fs col (if col = BLACK then Suc n else n))"
| "cinv (RightOf l a k ps col # fs) c n =
     (inv_c l \<and> inv_h l \<and> bh l = n \<and> (col = RED \<longrightarrow> c = BLACK \<and> rc l = BLACK)
      \<and> cinv fs col (if col = BLACK then Suc n else n))"

subsection \<open>Red-black tree: keys, descent and lookup on the tree\<close>

text \<open>
  \<open>descend\<close> is the path the descent of \<open>insert\<close> takes, \<open>alookup\<close> the result of the
  descent of \<open>search\<close>, both on the tree a store holds. \<open>nl\<close> and \<open>nr\<close> list the nodes to the
  left and to the right of a position, in order. \<open>rbt_inv\<close> is the invariant the
  proofs carry: the store holds the tree, every address in it has been allocated, the
  keys are strictly increasing in order, the root is black, no red node has a red
  child and the black heights agree.
\<close>

fun keys :: "tree \<Rightarrow> string list" where
  "keys Leaf = []"
| "keys (Node l a k ps c r) = keys l @ k # keys r"

fun descend :: "string \<Rightarrow> frame list \<Rightarrow> tree \<Rightarrow> frame list \<times> tree" where
  "descend k fs Leaf = (fs, Leaf)"
| "descend k fs (Node l a ck ps c r) =
     (if k = ck then (fs, Node l a ck ps c r)
      else if k < ck then descend k (LeftOf a ck ps c r # fs) l
      else descend k (RightOf l a ck ps c # fs) r)"

fun alookup :: "string \<Rightarrow> tree \<Rightarrow> PassengerPtr list" where
  "alookup k Leaf = []"
| "alookup k (Node l a ck ps c r) =
     (if k = ck then ps else if k < ck then alookup k l else alookup k r)"

fun directed :: "string \<Rightarrow> frame \<Rightarrow> bool" where
  "directed k (LeftOf a ck ps c r) = (k < ck)"
| "directed k (RightOf l a ck ps c) = (ck < k)"

fun nl :: "frame list \<Rightarrow> (nat \<times> string \<times> PassengerPtr list) list" where
  "nl [] = []"
| "nl (LeftOf a k ps c r # fs) = nl fs"
| "nl (RightOf l a k ps c # fs) = nl fs @ nodes l @ [(a, k, ps)]"

fun nr :: "frame list \<Rightarrow> (nat \<times> string \<times> PassengerPtr list) list" where
  "nr [] = []"
| "nr (LeftOf a k ps c r # fs) = (a, k, ps) # nodes r @ nr fs"
| "nr (RightOf l a k ps c # fs) = nr fs"

definition rbt_inv :: "RBTree \<Rightarrow> tree \<Rightarrow> bool" where
  "rbt_inv T t = (zrep T [] t \<and> (\<forall>a \<in> set (addrs t). a < allocated T)
                  \<and> sorted_wrt (<) (keys t) \<and> rc t = BLACK \<and> inv_c t \<and> inv_h t)"

definition lookup_entries :: "(string \<times> PassengerPtr list) list \<Rightarrow> string \<Rightarrow> PassengerPtr list" where
  "lookup_entries es k = (case map_of es k of None \<Rightarrow> [] | Some ps \<Rightarrow> ps)"

subsection \<open>Red-black tree: the invariants as the specification words them\<close>

text \<open>
  \<open>bst_ordered\<close>: every key in the left subtree of a node is smaller than the node's key
  and every key in the right subtree is greater. \<open>no_red_red\<close>: the children of a red
  node are black (a null reference counts as black), that is, no red node has a red
  parent. \<open>black_paths t\<close> lists, for every path from the root of \<open>t\<close> down to a null
  reference, the number of black nodes on it; \<open>path_balanced\<close> says that for every node
  all these numbers agree. \<open>red_black T t\<close>: the store of \<open>T\<close> holds the tree \<open>t\<close> from
  \<open>root\<close>, with consistent parent links and distinct allocated addresses, and \<open>t\<close> has
  the ordering invariant, a black root, no red-red edge and balanced black paths.
\<close>

fun bst_ordered :: "tree \<Rightarrow> bool" where
  "bst_ordered Leaf = True"
| "bst_ordered (Node l a k ps c r) =
     ((\<forall>x \<in> set (keys l). x < k) \<and> (\<forall>x \<in> set (keys r). k < x)
      \<and> bst_ordered l \<and> bst_ordered r)"

fun black_paths :: "tree \<Rightarrow> nat list" where
  "black_paths Leaf = [0]"
| "black_paths (Node l a k ps c r) =
     map (\<lambda>n. if c = BLACK then Suc n else n) (black_paths l @ black_paths r)"

fun subtrees :: "tree \<Rightarrow> tree list" where
  "subtrees Leaf = [Leaf]"
| "subtrees (Node l a k ps c r) = Node l a k ps c r # subtrees l @ subtrees r"

definition path_balanced :: "tree \<Rightarrow> bool" where
  "path_balanced t =
     (\<forall>s \<in> set (subtrees t). \<forall>m \<in> set (black_paths s). \<forall>n \<in> set (black_paths s). m = n)"

fun no_red_red :: "tree \<Rightarrow> bool" where
  "no_red_red Leaf = True"
| "no_red_red (Node l a k ps c r) =
     ((c = RED \<longrightarrow> rc l = BLACK \<and> rc r = BLACK) \<and> no_red_red l \<and> no_red_red r)"

definition red_black :: "RBTree \<Rightarrow> tree \<Rightarrow> bool" where
  "red_black T t =
     (rep (store T) None t \<and> root T = ptr_of t \<and> distinct (addrs t)
      \<and> (\<forall>a \<in> set (addrs t). a < allocated T)
      \<and> bst_ordered t \<and> rc t = BLACK \<and> no_red_red t \<and> path_balanced t)"

text \<open>
  The hash as the specification words it: \<open>h = (h * 31 + byte) mod bucketCount\<close> at each
  step, over the bytes \<open>0..255\<close> of the key and the natural numbers.
\<close>

definition rolling_hash_spec :: "string \<Rightarrow> nat \<Rightarrow> nat" where
  "rolling_hash_spec s m = fold (\<lambda>c h. (h * 31 + of_char c) mod m) s 0"

subsection \<open>Generator and harness\<close>











section \<open>Linear search: proofs\<close>

lemma linearSearch_loop_eq:
  "i \<le> length arr \<Longrightarrow>
   linearSearch_loop arr k i idx = idx @ filter (\<lambda>j. fullName (arr ! j) = k) [i..<length arr]"
proof (induction arr k i idx rule: linearSearch_loop.induct)
  case (1 arr k i idx)
  show ?case
  proof (cases "i < length arr")
    case True
    then have "[i..<length arr] = i # [Suc i..<length arr]"
      by (simp add: upt_conv_Cons)
    with True "1.IH" show ?thesis
      by (subst linearSearch_loop.simps) simp
  next
    case False
    with "1.prems" show ?thesis
      by (subst linearSearch_loop.simps) simp
  qed
qed

lemma linearSearch_filter:
  "linearSearch arr k = filter (\<lambda>j. fullName (arr ! j) = k) [0..<length arr]"
  by (simp add: linearSearch_def linearSearch_loop_eq)


lemma linearSearch_set:
  "set (linearSearch arr k) = {i. i < length arr \<and> fullName (arr ! i) = k}"
  by (auto simp: linearSearch_filter)

lemma linearSearch_sorted: "sorted_wrt (<) (linearSearch arr k)"
  by (simp add: linearSearch_filter sorted_wrt_filter)


section \<open>Hash function: proofs\<close>

lemma hashStr_loop_fold:
  "m \<noteq> 0 \<Longrightarrow> hashStr_loop sc s m h = Some (fold (hash_step sc m) s h)"
  by (induction s arbitrary: h) (simp_all add: hash_step_def)

lemma fold_hash_step_less:
  "m \<noteq> 0 \<Longrightarrow> h < m \<Longrightarrow> fold (hash_step sc m) s h < m"
proof (induction s arbitrary: h)
  case Nil
  then show ?case by simp
next
  case (Cons c s)
  have "0 < m" using Cons.prems(1) by (simp add: word_greater_zero_iff)
  then have "hash_step sc m c h < m"
    unfolding hash_step_def by (rule word_mod_less_divisor)
  with Cons show ?case by simp
qed

lemma hashStr_Some:
  "m \<noteq> 0 \<Longrightarrow> hashStr sc s m = Some (fold (hash_step sc m) s 0)"
  by (simp add: hashStr_def hashStr_loop_fold)

lemma hashStr_less:
  "m \<noteq> 0 \<Longrightarrow> fold (hash_step sc m) s 0 < m"
  by (rule fold_hash_step_less) (simp_all add: word_greater_zero_iff)

lemma size_unat: "n < 2 ^ 64 \<Longrightarrow> unat (of_nat n :: size_t) = n"
  by (simp add: unat_of_nat)

lemma ht_ok_size: "ht_ok t \<Longrightarrow> (of_nat (length (table t)) :: size_t) \<noteq> 0"
proof
  assume ok: "ht_ok t" and z: "(of_nat (length (table t)) :: size_t) = 0"
  from ok have "unat (of_nat (length (table t)) :: size_t) = length (table t)"
    by (simp add: ht_ok_def size_unat)
  with z ok show False by (simp add: ht_ok_def)
qed

lemma bucket_index_less: "ht_ok t \<Longrightarrow> bucket_index sc k t < length (table t)"
proof -
  assume ok: "ht_ok t"
  let ?m = "of_nat (length (table t)) :: size_t"
  have "fold (hash_step sc ?m) k 0 < ?m"
    using ok by (intro hashStr_less ht_ok_size)
  then have "unat (fold (hash_step sc ?m) k 0) < unat ?m"
    by (simp add: word_less_nat_alt)
  with ok show ?thesis
    by (simp add: bucket_index_def ht_ok_def size_unat)
qed


lemma of_char_less_256: "(of_char c :: nat) < 256"
  by (simp add: of_char_def)

lemma unat_size_t_of_char_unsigned: "unat (size_t_of_char False c) = of_char c"
proof -
  have "(256::nat) < 2 ^ 64" by simp
  with of_char_less_256[of c] have "(of_char c :: nat) < 2 ^ 64"
    by (rule order_less_trans)
  then have "unat (of_nat (of_char c) :: size_t) = of_char c"
    by (rule size_unat)
  moreover have "(of_nat (of_char c) :: size_t) = of_char c"
    by (rule of_nat_of_char)
  ultimately show ?thesis
    by (simp only: size_t_of_char_def if_False)
qed

lemma hash_step_unat:
  assumes "31 * unat m + 255 < 2 ^ 64" "h < m"
  shows "unat (hash_step False m c h) = (unat h * 31 + of_char c) mod unat m"
proof -
  have hm: "unat h < unat m" using assms(2) by (simp add: word_less_nat_alt)
  have c: "(of_char c :: nat) < 256" by (rule of_char_less_256)
  have b1: "unat h * unat (31 :: size_t) < 2 ^ LENGTH(64)" using hm assms(1) by simp
  have m1: "unat (h * 31) = unat h * 31"
    using unat_mult_lem[THEN iffD1, OF b1] by simp
  have "unat h * 31 + of_char c < 31 * unat m + 255"
    using hm c by linarith
  then have "unat h * 31 + of_char c < 2 ^ 64"
    using assms(1) by (rule order_less_trans)
  then have b2: "unat (h * 31) + unat (size_t_of_char False c) < 2 ^ LENGTH(64)"
    unfolding m1 unat_size_t_of_char_unsigned by simp
  have "unat (h * 31 + size_t_of_char False c) = unat h * 31 + of_char c"
    using unat_add_lem[THEN iffD1, OF b2] by (simp only: m1 unat_size_t_of_char_unsigned)
  then show ?thesis
    by (simp add: hash_step_def unat_mod)
qed

lemma byte_fold_mod:
  "fold (\<lambda>c a. a * 31 + of_char c) s (x mod n) mod n =
   fold (\<lambda>c a. a * 31 + of_char c) s x mod (n::nat)"
proof (induction s arbitrary: x)
  case Nil
  then show ?case by simp
next
  case (Cons d s)
  have e: "((x mod n) * 31 + of_char d) mod n = (x * 31 + of_char d) mod n"
    by (metis mod_add_left_eq mod_mult_left_eq)
  have "fold (\<lambda>c a. a * 31 + of_char c) s ((x mod n) * 31 + of_char d) mod n
      = fold (\<lambda>c a. a * 31 + of_char c) s (((x mod n) * 31 + of_char d) mod n) mod n"
    by (simp only: Cons.IH)
  also have "\<dots> = fold (\<lambda>c a. a * 31 + of_char c) s ((x * 31 + of_char d) mod n) mod n"
    by (simp only: e)
  also have "\<dots> = fold (\<lambda>c a. a * 31 + of_char c) s (x * 31 + of_char d) mod n"
    by (simp only: Cons.IH)
  finally show ?case by simp
qed

lemma fold_hash_step_poly:
  assumes "31 * unat m + 255 < 2 ^ 64" "m \<noteq> 0" "h < m"
  shows "unat (fold (hash_step False m) s h) =
           fold (\<lambda>c a. a * 31 + of_char c) s (unat h) mod unat m"
  using assms(3)
proof (induction s arbitrary: h)
  case Nil
  then show ?case by (simp add: word_less_nat_alt)
next
  case (Cons c s)
  have "0 < m" using assms(2) by (simp add: word_greater_zero_iff)
  then have lt: "hash_step False m c h < m"
    unfolding hash_step_def by (rule word_mod_less_divisor)
  have "unat (fold (hash_step False m) (c # s) h)
      = fold (\<lambda>c a. a * 31 + of_char c) s (unat (hash_step False m c h)) mod unat m"
    using Cons.IH[OF lt] by simp
  also have "\<dots> = fold (\<lambda>c a. a * 31 + of_char c) s ((unat h * 31 + of_char c) mod unat m) mod unat m"
    by (simp only: hash_step_unat[OF assms(1) Cons.prems])
  also have "\<dots> = fold (\<lambda>c a. a * 31 + of_char c) s (unat h * 31 + of_char c) mod unat m"
    by (rule byte_fold_mod)
  finally show ?case by simp
qed

lemma hashStr_polynomial:
  assumes "31 * unat m + 255 < 2 ^ 64" "m \<noteq> 0"
  shows "\<exists>h. hashStr False s m = Some h \<and> unat h = byte_poly s mod unat m"
proof -
  have "0 < m" using assms(2) by (simp add: word_greater_zero_iff)
  from fold_hash_step_poly[OF assms this, of s] show ?thesis
    by (simp add: hashStr_Some[OF assms(2)] byte_poly_def)
qed


section \<open>Hash table: proofs\<close>

lemma HashTable_insert_eq:
  assumes "ht_ok t"
  shows "HashTable_insert sc data p t =
     Some (if target_bucket sc (fullName (data ! p)) t = []
           then t\<lparr>table := (table t)[bucket_index sc (fullName (data ! p)) t :=
                       [\<lparr>key = fullName (data ! p), payload = [p]\<rparr>]]\<rparr>
           else t\<lparr>collisions := collisions t + 1,
                  table := (table t)[bucket_index sc (fullName (data ! p)) t :=
                       chain_insert (fullName (data ! p)) p (target_bucket sc (fullName (data ! p)) t)]\<rparr>)"
  using bucket_index_less[OF assms, of sc "fullName (data ! p)"] ht_ok_size[OF assms]
  by (simp add: HashTable_insert_def hashStr_Some target_bucket_def bucket_index_def Let_def)

lemma HashTable_insert_ok:
  "ht_ok t \<Longrightarrow> HashTable_insert sc data p t = Some t' \<Longrightarrow> ht_ok t' \<and> length (table t') = length (table t)"
  by (auto simp: HashTable_insert_eq ht_ok_def split: if_splits)

lemma chain_insert_not_Nil: "chain_insert k p es \<noteq> []"
  by (cases es) auto

lemma chain_insert_keys:
  "k \<in> key ` set es \<Longrightarrow> map key (chain_insert k p es) = map key es"
  by (induction es) auto

lemma chain_insert_has_key: "k \<in> key ` set (chain_insert k p es)"
  by (induction es) auto

lemma bucket_index_cong:
  "length (table t') = length (table t) \<Longrightarrow> bucket_index sc k t' = bucket_index sc k t"
  by (simp add: bucket_index_def)

lemma HashTable_insert_nonempty:
  assumes "ht_ok t" "HashTable_insert sc data p t = Some t'"
  shows "fullName (data ! p) \<in> key ` set (target_bucket sc (fullName (data ! p)) t')"
proof -
  let ?k = "fullName (data ! p)"
  have len: "length (table t') = length (table t)"
    using HashTable_insert_ok[OF assms] by simp
  have i: "bucket_index sc ?k t < length (table t)"
    by (rule bucket_index_less[OF assms(1)])
  show ?thesis
    using assms(2) i
    by (auto simp: HashTable_insert_eq[OF assms(1)] target_bucket_def bucket_index_def
          chain_insert_has_key split: if_splits)
qed

lemma HashTable_insert_present:
  assumes "ht_ok t" "fullName (data ! p) \<in> key ` set (target_bucket sc (fullName (data ! p)) t)"
  shows "\<exists>t'. HashTable_insert sc data p t = Some t' \<and> collisions t' = collisions t + 1
           \<and> map (map key) (table t') = map (map key) (table t)
           \<and> fullName (data ! p) \<in> key ` set (target_bucket sc (fullName (data ! p)) t')"
proof -
  let ?k = "fullName (data ! p)"
  let ?i = "bucket_index sc ?k t"
  let ?t' = "t\<lparr>collisions := collisions t + 1,
                table := (table t)[?i := chain_insert ?k p (target_bucket sc ?k t)]\<rparr>"
  have ne: "target_bucket sc ?k t \<noteq> []" using assms(2) by auto
  have i: "?i < length (table t)" by (rule bucket_index_less[OF assms(1)])
  have eq: "HashTable_insert sc data p t = Some ?t'"
    using ne by (simp add: HashTable_insert_eq[OF assms(1)])
  have keys: "map (map key) (table ?t') = map (map key) (table t)"
    using i chain_insert_keys[OF assms(2), of p]
    by (simp add: map_update target_bucket_def list_update_same_conv)
  have "?k \<in> key ` set (target_bucket sc ?k ?t')"
    by (rule HashTable_insert_nonempty[OF assms(1) eq])
  with eq keys show ?thesis by simp
qed

lemma one_bucket_index: "length (table t) = 1 \<Longrightarrow> bucket_index sc k t = 0"
proof -
  assume l: "length (table t) = 1"
  then have "ht_ok t" by (simp add: ht_ok_def)
  from bucket_index_less[OF this, of sc k] l show ?thesis by simp
qed

lemma one_bucket_inserts:
  "length (table t) = 1 \<Longrightarrow>
   \<exists>t'. HashTable_inserts sc data ps t = Some t' \<and> length (table t') = 1 \<and>
        (ps \<noteq> [] \<longrightarrow> table t' ! 0 \<noteq> []) \<and>
        collisions t' + (if table t ! 0 = [] \<and> ps \<noteq> [] then 1 else 0) =
          collisions t + of_nat (length ps)"
proof (induction ps arbitrary: t)
  case Nil
  then show ?case by simp
next
  case (Cons p ps)
  have ok: "ht_ok t" using Cons.prems by (simp add: ht_ok_def)
  obtain t1 where t1: "HashTable_insert sc data p t = Some t1"
    by (simp add: HashTable_insert_eq[OF ok])
  have l1: "length (table t1) = 1"
    using HashTable_insert_ok[OF ok t1] Cons.prems by simp
  have ne1: "table t1 ! 0 \<noteq> []"
    using HashTable_insert_nonempty[OF ok t1] one_bucket_index[OF l1]
    by (auto simp: target_bucket_def)
  have c1: "collisions t1 = (if table t ! 0 = [] then collisions t else collisions t + 1)"
    using t1 one_bucket_index[OF Cons.prems]
    by (auto simp: HashTable_insert_eq[OF ok] target_bucket_def split: if_splits)
  from Cons.IH[OF l1] obtain t' where
    t': "HashTable_inserts sc data ps t1 = Some t'" "length (table t') = 1"
        "ps \<noteq> [] \<longrightarrow> table t' ! 0 \<noteq> []"
        "collisions t' + (if table t1 ! 0 = [] \<and> ps \<noteq> [] then 1 else 0) =
           collisions t1 + of_nat (length ps)"
    by blast
  have "table t' ! 0 \<noteq> []"
  proof (cases ps)
    case Nil
    with t'(1) ne1 show ?thesis by simp
  next
    case (Cons a as)
    with t'(3) show ?thesis by simp
  qed
  with t' t1 c1 ne1 show ?case by (auto simp: algebra_simps)
qed


lemma same_key_inserts:
  assumes "ht_ok t" "k \<in> key ` set (target_bucket sc k t)"
    and "\<forall>q \<in> set qs. fullName (data ! q) = k"
  shows "\<exists>t'. HashTable_inserts sc data qs t = Some t' \<and>
              collisions t' = collisions t + of_nat (length qs) \<and>
              map (map key) (table t') = map (map key) (table t)"
  using assms
proof (induction qs arbitrary: t)
  case Nil
  then show ?case by simp
next
  case (Cons q qs)
  have kq: "fullName (data ! q) = k" using Cons.prems(3) by simp
  from HashTable_insert_present[OF Cons.prems(1), of data q sc] Cons.prems(2) kq
  obtain t1 where t1: "HashTable_insert sc data q t = Some t1"
      "collisions t1 = collisions t + 1"
      "map (map key) (table t1) = map (map key) (table t)"
      "k \<in> key ` set (target_bucket sc k t1)"
    by auto
  have ok1: "ht_ok t1" using HashTable_insert_ok[OF Cons.prems(1) t1(1)] by simp
  from Cons.IH[OF ok1 t1(4)] Cons.prems(3) obtain t' where
    t': "HashTable_inserts sc data qs t1 = Some t'"
        "collisions t' = collisions t1 + of_nat (length qs)"
        "map (map key) (table t') = map (map key) (table t1)"
    by auto
  with t1 show ?case by simp
qed

section \<open>Claims on linear search and the hash table\<close>

text \<open>
  Claim C6. For every dataset and every key, \<open>linearSearch\<close> returns exactly the indices
  \<open>i\<close> with \<open>dataset[i].key == key\<close>, in ascending order (possibly none). The result is
  the filter of \<open>0, 1, ..., size - 1\<close> by the key test; as a set it is the set of the
  matching positions, and it is strictly increasing. The function takes the dataset by
  const reference and returns only the index vector, so the dataset is left as it was:
  in the model the dataset is an argument and not part of the result.
\<close>

theorem linearSearch_correct:
  "linearSearch arr k = filter (\<lambda>i. fullName (arr ! i) = k) [0..<length arr]
   \<and> set (linearSearch arr k) = {i. i < length arr \<and> fullName (arr ! i) = k}
   \<and> sorted_wrt (<) (linearSearch arr k)"
  using linearSearch_filter linearSearch_set linearSearch_sorted by blast

theorem linearSearch_correct_witness:
  "linearSearch [passenger ''alice'', passenger ''bob'', passenger ''alice''] ''alice'' = [0, 2]"
  using linearSearch_correct[of "[passenger ''alice'', passenger ''bob'', passenger ''alice'']" "''alice''"]
  by (simp add: passenger_def upt_rec)

lemma sint8: "sint (w :: 8 word) = uint w - (if 128 \<le> uint w then 256 else 0)"
proof -
  have r: "0 \<le> uint w" "uint w < 256" using uint_lt2p[of w] by simp_all
  have b: "bit (uint w) 7 \<longleftrightarrow> 128 \<le> uint w"
  proof (cases "128 \<le> uint w")
    case True
    then have "uint w div 128 = 1" using r by simp
    then show ?thesis using True by (simp add: bit_iff_odd)
  next
    case False
    then have "uint w div 128 = 0" using r by simp
    then show ?thesis using False by (simp add: bit_iff_odd)
  qed
  have t: "take_bit 8 (uint w) = uint w" using r by (simp add: take_bit_int_eq_self)
  have "sint w = signed_take_bit 7 (uint w)" by (simp add: sint_uint)
  also have "\<dots> = take_bit 8 (uint w) - 2 ^ 8 * of_bool (bit (uint w) 7)"
    using signed_take_bit_eq_take_bit_minus[of 7 "uint w"] by simp
  finally show ?thesis by (simp add: t b)
qed

lemma unat_of_char8: "unat (of_char c :: 8 word) = of_char c"
proof -
  have "(of_char c :: nat) < 2 ^ LENGTH(8)" using of_char_less_256[of c] by simp
  then have "unat (of_nat (of_char c) :: 8 word) = of_char c"
    by (simp only: unat_of_nat mod_less)
  then show ?thesis by (simp only: of_nat_of_char)
qed

lemma uint_of_char8: "uint (of_char c :: 8 word) = of_char c"
proof -
  have "uint (of_char c :: 8 word) = int (unat (of_char c :: 8 word))" by (rule uint_nat)
  also have "\<dots> = int (of_char c)" by (simp only: unat_of_char8)
  also have "\<dots> = of_char c" by (rule of_nat_of_char)
  finally show ?thesis .
qed

lemma size_t_of_char_signed:
  "size_t_of_char True c = (if 128 \<le> (of_char c :: nat) then of_char c - 256 else of_char c)"
proof -
  have i: "(128 \<le> (of_char c :: int)) = (128 \<le> (of_char c :: nat))"
  proof -
    have "(of_char c :: int) = int (of_char c)" by (simp only: of_nat_of_char)
    then show ?thesis by simp
  qed
  have "size_t_of_char True c = of_int (sint (of_char c :: 8 word))"
    by (simp add: size_t_of_char_def)
  also have "sint (of_char c :: 8 word) = of_char c - (if 128 \<le> (of_char c :: int) then 256 else 0)"
    by (simp only: sint8 uint_of_char8)
  also have "(of_int (of_char c - (if 128 \<le> (of_char c :: int) then 256 else 0)) :: size_t)
           = (if 128 \<le> (of_char c :: nat) then of_char c - 256 else of_char c)"
    by (simp add: i of_int_of_char)
  finally show ?thesis .
qed

lemma size_t_of_char_cases:
  "size_t_of_char sc c = (if sc \<and> 128 \<le> (of_char c :: nat) then of_char c - 256 else of_char c)"
  by (cases sc) (simp_all add: size_t_of_char_signed, simp add: size_t_of_char_def)

lemma size_t_of_char_low:
  assumes "sc \<longrightarrow> (of_char c :: nat) < 128"
  shows "size_t_of_char sc c = size_t_of_char False c"
proof (cases sc)
  case True
  with assms have "\<not> 128 \<le> (of_char c :: nat)" by simp
  with True show ?thesis by (simp only: size_t_of_char_cases) simp
next
  case False
  then show ?thesis by simp
qed

lemma hash_step_unat_low:
  assumes "31 * unat m + 255 < 2 ^ 64" "h < m" "sc \<longrightarrow> (of_char c :: nat) < 128"
  shows "unat (hash_step sc m c h) = (unat h * 31 + of_char c) mod unat m"
proof -
  have "hash_step sc m c h = hash_step False m c h"
    by (simp only: hash_step_def size_t_of_char_low[OF assms(3)])
  then show ?thesis by (simp only: hash_step_unat[OF assms(1,2)])
qed

lemma fold_hash_step_spec:
  assumes "31 * unat m + 255 < 2 ^ 64" "m \<noteq> 0" "h < m"
    and "sc \<longrightarrow> (\<forall>c \<in> set s. (of_char c :: nat) < 128)"
  shows "unat (fold (hash_step sc m) s h) =
           fold (\<lambda>c h. (h * 31 + of_char c) mod unat m) s (unat h)"
  using assms(3,4)
proof (induction s arbitrary: h)
  case Nil
  show ?case by simp
next
  case (Cons c s)
  have "0 < m" using assms(2) by (simp add: word_greater_zero_iff)
  then have lt: "hash_step sc m c h < m"
    unfolding hash_step_def by (rule word_mod_less_divisor)
  have c: "sc \<longrightarrow> (of_char c :: nat) < 128" using Cons.prems(2) by simp
  have s: "sc \<longrightarrow> (\<forall>c \<in> set s. (of_char c :: nat) < 128)" using Cons.prems(2) by simp
  show ?case
    using Cons.IH[OF lt s] hash_step_unat_low[OF assms(1) Cons.prems(1) c] by simp
qed

text \<open>
  Claim C5, as the specification words it: for every key and every bucket count greater
  than zero the hash is the rolling hash \<open>h = (h * 31 + byte) mod bucketCount\<close> over the
  key's bytes. Read over the key's bytes \<open>0..255\<close> and the natural numbers
  (\<open>rolling_hash_spec\<close>), this fails in two ways. Where \<open>char\<close> is signed, a byte of 128
  or more is sign-extended by \<open>static_cast<size_t>\<close>: the key of the single byte \<open>0x80\<close> has
  hash 0 modulo 7, and not \<open>128 mod 7 = 2\<close>. And \<open>h * 31 + byte\<close> is computed in \<open>size_t\<close>
  and wraps for a large bucket count: sixteen times \<open>z\<close> modulo \<open>2^64 - 1\<close>.
\<close>

theorem hashStr_byte_formula_counterexample:
  "hashStr True [CHR 0x80] 7 = Some 0 \<and> rolling_hash_spec [CHR 0x80] 7 = 2
   \<and> hashStr False ''zzzzzzzzzzzzzzzz'' 18446744073709551615 = Some 12141879601913772544
   \<and> rolling_hash_spec ''zzzzzzzzzzzzzzzz'' 18446744073709551615 \<noteq> 12141879601913772544"
  by (simp add: hashStr_def size_t_of_char_cases rolling_hash_spec_def)

text \<open>
  Claim C5, amended. For every key and every bucket count \<open>m\<close> greater than zero,
  \<open>hashStr\<close> returns a value below \<open>m\<close> (so the bucket index used by insert and search
  lies inside a table of \<open>m\<close> slots). The value is the fold from 0 of
  \<open>h = (h * 31 + v) mod m\<close> in wrapping 64-bit arithmetic, where \<open>v\<close> is the byte, minus
  256 when \<open>char\<close> is signed and the byte is 128 or more. It equals the rolling hash
  over the bytes \<open>0..255\<close> in the natural numbers whenever \<open>31 * m + 255 < 2^64\<close> and
  either \<open>char\<close> is unsigned or every byte of the key is below 128.
\<close>

theorem hashStr_rolling_hash:
  assumes "m \<noteq> 0"
  shows "\<exists>h. hashStr sc s m = Some h \<and> h < m \<and> unat h < unat m
           \<and> h = fold (\<lambda>c h. (h * 31 + (if sc \<and> 128 \<le> (of_char c :: nat)
                                          then of_char c - 256 else of_char c)) mod m) s 0
           \<and> (31 * unat m + 255 < 2 ^ 64 \<and> (sc \<longrightarrow> (\<forall>c \<in> set s. (of_char c :: nat) < 128))
                \<longrightarrow> unat h = rolling_hash_spec s (unat m))
           \<and> (ht_ok t \<and> m = of_nat (length (table t)) \<longrightarrow> unat h < length (table t))"
proof -
  let ?h = "fold (hash_step sc m) s 0"
  have f: "hash_step sc m = (\<lambda>c h. (h * 31 + (if sc \<and> 128 \<le> (of_char c :: nat)
                                          then of_char c - 256 else of_char c)) mod m)"
    by (simp add: fun_eq_iff hash_step_def size_t_of_char_cases)
  have lt: "?h < m" by (rule hashStr_less[OF assms])
  then have ult: "unat ?h < unat m" by (simp add: word_less_nat_alt)
  have tbl: "unat ?h < length (table t)" if "ht_ok t \<and> m = of_nat (length (table t))"
  proof -
    from that have "unat m = length (table t)" by (simp add: ht_ok_def size_unat)
    with ult show ?thesis by simp
  qed
  have spec: "unat ?h = rolling_hash_spec s (unat m)"
    if "31 * unat m + 255 < 2 ^ 64 \<and> (sc \<longrightarrow> (\<forall>c \<in> set s. (of_char c :: nat) < 128))"
  proof -
    have "0 < m" using assms by (simp add: word_greater_zero_iff)
    from fold_hash_step_spec[OF conjunct1[OF that] assms this conjunct2[OF that]]
    show ?thesis by (simp add: rolling_hash_spec_def)
  qed
  have 1: "hashStr sc s m = Some ?h" by (rule hashStr_Some[OF assms])
  have 2: "?h = fold (\<lambda>c h. (h * 31 + (if sc \<and> 128 \<le> (of_char c :: nat)
                                          then of_char c - 256 else of_char c)) mod m) s 0"
    by (simp only: f)
  from 1 2 lt ult tbl spec show ?thesis by blast
qed

theorem hashStr_rolling_hash_witness:
  "(7 :: size_t) \<noteq> 0 \<and> 31 * unat (7 :: size_t) + 255 < 2 ^ 64 \<and> ht_ok (HashTable_new 7)
   \<and> hashStr True ''ab'' 7 = Some 4 \<and> rolling_hash_spec ''ab'' 7 = 4
   \<and> unat (4 :: size_t) < length (table (HashTable_new 7))"
proof -
  have n: "(7 :: size_t) \<noteq> 0" by simp
  have b: "31 * unat (7 :: size_t) + 255 < 2 ^ 64" by simp
  have a: "\<forall>c \<in> set ''ab''. (of_char c :: nat) < 128" by simp
  have ok: "ht_ok (HashTable_new 7)" by (simp add: ht_ok_def HashTable_new_def)
  have m: "(7 :: size_t) = of_nat (length (table (HashTable_new 7)))"
    by (simp add: HashTable_new_def)
  have e: "hashStr True ''ab'' 7 = Some 4"
    by (simp add: hashStr_def size_t_of_char_cases)
  from hashStr_rolling_hash[OF n, of True "''ab''" "HashTable_new 7"] e b a ok m
  have "unat (4 :: size_t) = rolling_hash_spec ''ab'' 7
        \<and> unat (4 :: size_t) < length (table (HashTable_new 7))"
    by auto
  then have "rolling_hash_spec ''ab'' 7 = 4 \<and> unat (4 :: size_t) < length (table (HashTable_new 7))"
    by simp
  with n b ok e show ?thesis by blast
qed

text \<open>
  Claim C3. On a table with at least one bucket, an insertion returns and leaves the
  collision counter as it was when the target bucket was empty, and one higher when
  the target bucket was not empty, whether or not the key is already in the chain.
  A table with one bucket that has received \<open>k \<ge> 1\<close> insertions (of distinct keys or
  not) has counter \<open>k - 1\<close>. After a first insertion of a key, each further insertion of
  the same key adds one to the counter and leaves the keys of every chain (hence the
  number of entries) as they were.
\<close>

theorem collision_counter:
  assumes "ht_ok t"
  shows "(\<exists>t'. HashTable_insert sc data p t = Some t' \<and>
            collisionCount t' = (if target_bucket sc (fullName (data ! p)) t = []
                                 then collisionCount t else collisionCount t + 1))
       \<and> (ps \<noteq> [] \<longrightarrow>
            (\<exists>t'. HashTable_inserts sc data ps (HashTable_new 1) = Some t' \<and>
                  collisionCount t' = of_nat (length ps) - 1 \<and>
                  (length ps \<le> 2 ^ 64 \<longrightarrow> int (unat (collisionCount t')) = int (length ps) - 1)))
       \<and> ((\<forall>q \<in> set qs. fullName (data ! q) = fullName (data ! p)) \<longrightarrow>
            (\<exists>t1 t2. HashTable_insert sc data p t = Some t1 \<and>
                  HashTable_inserts sc data qs t1 = Some t2 \<and>
                  collisionCount t2 = collisionCount t1 + of_nat (length qs) \<and>
                  map (map key) (table t2) = map (map key) (table t1)))"
proof (intro conjI impI)
  show "\<exists>t'. HashTable_insert sc data p t = Some t' \<and>
            collisionCount t' = (if target_bucket sc (fullName (data ! p)) t = []
                                 then collisionCount t else collisionCount t + 1)"
    by (simp add: HashTable_insert_eq[OF assms] collisionCount_def)
next
  assume ne: "ps \<noteq> []"
  have l: "length (table (HashTable_new 1)) = 1" by (simp add: HashTable_new_def)
  from one_bucket_inserts[OF l, of sc data ps] ne obtain t' where
    t': "HashTable_inserts sc data ps (HashTable_new 1) = Some t'"
        "collisions t' + 1 = of_nat (length ps)"
    by (auto simp: HashTable_new_def)
  then have c: "collisions t' = of_nat (length ps) - 1"
    by (simp add: algebra_simps)
  have "int (unat (collisions t')) = int (length ps) - 1" if "length ps \<le> 2 ^ 64"
  proof -
    from ne obtain n where n: "length ps = Suc n" by (cases ps) auto
    with c have "collisions t' = of_nat n" by simp
    moreover have "n < 2 ^ 64" using that n by simp
    ultimately have "unat (collisions t') = n" by (simp add: size_unat)
    with n show ?thesis by simp
  qed
  with t'(1) c show "\<exists>t'. HashTable_inserts sc data ps (HashTable_new 1) = Some t' \<and>
                  collisionCount t' = of_nat (length ps) - 1 \<and>
                  (length ps \<le> 2 ^ 64 \<longrightarrow> int (unat (collisionCount t')) = int (length ps) - 1)"
    by (simp add: collisionCount_def)
next
  assume same: "\<forall>q \<in> set qs. fullName (data ! q) = fullName (data ! p)"
  obtain t1 where t1: "HashTable_insert sc data p t = Some t1"
    by (simp add: HashTable_insert_eq[OF assms])
  have ok1: "ht_ok t1" using HashTable_insert_ok[OF assms t1] by simp
  have pres: "fullName (data ! p) \<in> key ` set (target_bucket sc (fullName (data ! p)) t1)"
    by (rule HashTable_insert_nonempty[OF assms t1])
  from same_key_inserts[OF ok1 pres same] t1
  show "\<exists>t1 t2. HashTable_insert sc data p t = Some t1 \<and>
                  HashTable_inserts sc data qs t1 = Some t2 \<and>
                  collisionCount t2 = collisionCount t1 + of_nat (length qs) \<and>
                  map (map key) (table t2) = map (map key) (table t1)"
    by (auto simp: collisionCount_def)
qed

theorem collision_counter_witness:
  "ht_ok (HashTable_new 1)
   \<and> (\<exists>t'. HashTable_insert False [passenger ''alice'', passenger ''bob'', passenger ''alice'']
               0 (HashTable_new 1) = Some t'
          \<and> collisionCount t' = collisionCount (HashTable_new 1))
   \<and> (\<exists>t'. HashTable_inserts False [passenger ''alice'', passenger ''bob'', passenger ''alice'']
               [0, 1, 2] (HashTable_new 1) = Some t'
          \<and> collisionCount t' = 2)
   \<and> (\<exists>t1 t2. HashTable_insert False [passenger ''alice'', passenger ''bob'', passenger ''alice'']
                   0 (HashTable_new 1) = Some t1
         \<and> HashTable_inserts False [passenger ''alice'', passenger ''bob'', passenger ''alice'']
                   [2, 2] t1 = Some t2
         \<and> collisionCount t2 = collisionCount t1 + 2
         \<and> map (map key) (table t2) = map (map key) (table t1))"
proof -
  let ?data = "[passenger ''alice'', passenger ''bob'', passenger ''alice'']"
  have ok: "ht_ok (HashTable_new 1)"
    by (simp add: ht_ok_def HashTable_new_def)
  have empty: "target_bucket False (fullName (?data ! 0)) (HashTable_new 1) = []"
    by (simp add: target_bucket_def HashTable_new_def one_bucket_index)
  have same: "\<forall>q \<in> set [2, 2]. fullName (?data ! q) = fullName (?data ! 0)"
    by (simp add: passenger_def)
  note th = collision_counter[OF ok, of False ?data 0 "[0, 1, 2]" "[2, 2]"]
  from th empty have a: "\<exists>t'. HashTable_insert False ?data 0 (HashTable_new 1) = Some t'
          \<and> collisionCount t' = collisionCount (HashTable_new 1)"
    by simp
  from th have b: "\<exists>t'. HashTable_inserts False ?data [0, 1, 2] (HashTable_new 1) = Some t'
          \<and> collisionCount t' = 2"
    by (auto simp del: HashTable_inserts.simps)
  from th same have c: "\<exists>t1 t2. HashTable_insert False ?data 0 (HashTable_new 1) = Some t1
         \<and> HashTable_inserts False ?data [2, 2] t1 = Some t2
         \<and> collisionCount t2 = collisionCount t1 + 2
         \<and> map (map key) (table t2) = map (map key) (table t1)"
    by (auto simp del: HashTable_inserts.simps)
  from ok a b c show ?thesis by blast
qed

section \<open>Unbalanced tree and hash table: search after insertion\<close>

lemma matches_simps:
  "matches data k [] = []"
  "matches data k (p # ps) = (if fullName (data ! p) = k then p # matches data k ps else matches data k ps)"
  "matches data k (ps @ qs) = matches data k ps @ matches data k qs"
  by (simp_all add: matches_def)

lemma linearSearch_matches: "linearSearch data k = matches data k [0..<length data]"
  by (simp add: linearSearch_filter matches_def)

lemma BST_search_insert_loop:
  "t \<noteq> BSTNull \<Longrightarrow>
   BST_search k' (BST_insert_loop k p t) = (if k' = k then BST_search k t @ [p] else BST_search k' t)"
proof (induction k p t rule: BST_insert_loop.induct)
  case (1 k p)
  then show ?case by simp
next
  case (2 k p ck pl l r)
  show ?case
  proof (cases "k = ck")
    case True
    then show ?thesis by simp
  next
    case ne: False
    show ?thesis
    proof (cases "k < ck")
      case True
      let ?l = "if l = BSTNull then BSTNode k [] BSTNull BSTNull else l"
      have "?l \<noteq> BSTNull" by simp
      from "2.IH"(1)[OF ne True this]
      have ih: "BST_search k' (BST_insert_loop k p ?l) =
                (if k' = k then BST_search k ?l @ [p] else BST_search k' ?l)" .
      have s: "BST_search k'' ?l = BST_search k'' l" if "k'' = k \<or> k' = k'' \<and> k' \<noteq> k" for k''
        using that by (cases "l = BSTNull") auto
      show ?thesis using ne True ih s[of k] s[of k']
        by (auto simp del: BST_insert_loop.simps simp add: BST_insert_loop.simps(2)[of k p ck pl l r])
    next
      case False
      let ?r = "if r = BSTNull then BSTNode k [] BSTNull BSTNull else r"
      have "?r \<noteq> BSTNull" by simp
      from "2.IH"(2)[OF ne False this]
      have ih: "BST_search k' (BST_insert_loop k p ?r) =
                (if k' = k then BST_search k ?r @ [p] else BST_search k' ?r)" .
      have s: "BST_search k'' ?r = BST_search k'' r" if "k'' = k \<or> k' = k'' \<and> k' \<noteq> k" for k''
        using that by (cases "r = BSTNull") auto
      show ?thesis using ne False ih s[of k] s[of k']
        by (auto simp del: BST_insert_loop.simps simp add: BST_insert_loop.simps(2)[of k p ck pl l r])
    qed
  qed
qed

lemma BST_search_insert:
  "BST_search k (BST_insert data p t) =
     (if k = fullName (data ! p) then BST_search k t @ [p] else BST_search k t)"
  by (cases "t = BSTNull") (simp_all add: BST_insert_def BST_search_insert_loop del: BST_insert_loop.simps)

lemma BST_search_fold:
  "BST_search k (fold (BST_insert data) ps t) = BST_search k t @ matches data k ps"
  by (induction ps arbitrary: t) (auto simp: BST_search_insert matches_simps)

lemma BST_search_build: "BST_search k (BST_build data) = linearSearch data k"
  by (simp add: BST_build_def BST_search_fold linearSearch_matches)
lemma chain_search_insert:
  "chain_search k' (chain_insert k p es) =
     (if k' = k then chain_search k es @ [p] else chain_search k' es)"
  by (induction es) auto

lemma HashTable_search_eq:
  "ht_ok t \<Longrightarrow> HashTable_search sc k t = Some (chain_search k (target_bucket sc k t))"
  using bucket_index_less[of t sc k] ht_ok_size[of t]
  by (simp add: HashTable_search_def hashStr_Some target_bucket_def bucket_index_def)

lemma HashTable_search_insert:
  assumes "ht_ok t" "HashTable_insert sc data p t = Some t'"
  shows "chain_search k (target_bucket sc k t') =
     (if k = fullName (data ! p) then chain_search k (target_bucket sc k t) @ [p]
      else chain_search k (target_bucket sc k t))"
proof -
  let ?kp = "fullName (data ! p)"
  have len: "length (table t') = length (table t)"
    using HashTable_insert_ok[OF assms] by simp
  have i: "bucket_index sc ?kp t < length (table t)" "bucket_index sc k t < length (table t)"
    by (rule bucket_index_less[OF assms(1)])+
  have bi: "bucket_index sc k t' = bucket_index sc k t"
    by (rule bucket_index_cong[OF len])
  show ?thesis
    using assms(2) i
    by (auto simp: HashTable_insert_eq[OF assms(1)] target_bucket_def bi chain_search_insert
          nth_list_update split: if_splits)
qed

lemma HashTable_inserts_search:
  assumes "ht_ok t"
  shows "\<exists>t'. HashTable_inserts sc data ps t = Some t' \<and> ht_ok t' \<and>
           chain_search k (target_bucket sc k t') = chain_search k (target_bucket sc k t) @ matches data k ps"
  using assms
proof (induction ps arbitrary: t)
  case Nil
  then show ?case by (simp add: matches_simps)
next
  case (Cons p ps)
  obtain t1 where t1: "HashTable_insert sc data p t = Some t1"
    by (simp add: HashTable_insert_eq[OF Cons.prems])
  have ok1: "ht_ok t1" using HashTable_insert_ok[OF Cons.prems t1] by simp
  from Cons.IH[OF ok1] obtain t' where
    t': "HashTable_inserts sc data ps t1 = Some t'" "ht_ok t'"
        "chain_search k (target_bucket sc k t') = chain_search k (target_bucket sc k t1) @ matches data k ps"
    by blast
  with t1 HashTable_search_insert[OF Cons.prems t1, of k] show ?case
    by (auto simp: matches_simps)
qed

lemma HashTable_new_ok: "n \<noteq> 0 \<Longrightarrow> ht_ok (HashTable_new n)"
proof -
  assume "n \<noteq> 0"
  then have "0 < unat n" by (simp add: unat_gt_0)
  moreover have "unat n < 2 ^ 64" using unsigned_less[of n] by simp
  ultimately show ?thesis by (simp add: ht_ok_def HashTable_new_def)
qed

lemma HashTable_search_build:
  assumes "n \<noteq> 0"
  shows "\<exists>t. HashTable_build sc n data = Some t \<and> HashTable_search sc k t = Some (linearSearch data k)"
proof -
  have ok: "ht_ok (HashTable_new n)" by (rule HashTable_new_ok[OF assms])
  have e: "chain_search k (target_bucket sc k (HashTable_new n)) = []"
    using bucket_index_less[OF ok, of sc k]
    by (simp add: target_bucket_def HashTable_new_def)
  from HashTable_inserts_search[OF ok, of sc data "[0..<length data]" k] e
  show ?thesis
    by (auto simp: HashTable_build_def HashTable_search_eq linearSearch_matches)
qed

section \<open>Red-black tree: rotations and the fix-up loop\<close>

lemma rep_cong: "rep h par t \<Longrightarrow> (\<forall>a \<in> set (addrs t). h' a = h a) \<Longrightarrow> rep h' par t"
  by (induction t arbitrary: par) auto

lemma repc_cong:
  "repc h fs hp \<Longrightarrow> (\<forall>a \<in> set (zaddrs fs). h' a = h a) \<Longrightarrow> repc h' fs hp"
  by (induction h fs hp rule: repc.induct) (auto intro: rep_cong)

lemma ptr_of_addrs: "ptr_of t = Some a \<Longrightarrow> a \<in> set (addrs t)"
  by (cases t) auto

lemma zrep_left: "zrep T fs (Node l a k ps c r) = zrep T (LeftOf a k ps c r # fs) l"
  by (auto simp: zrep_def)

lemma zrep_right: "zrep T fs (Node l a k ps c r) = zrep T (RightOf l a k ps c # fs) r"
  by (auto simp: zrep_def)

lemma zrep_plug: "zrep T fs t = zrep T [] (plug fs t)"
proof (induction fs t rule: plug.induct)
  case (1 t)
  show ?case by simp
next
  case (2 a k ps c r fs t)
  then show ?case by (simp add: zrep_left[symmetric])
next
  case (3 l a k ps c fs t)
  then show ?case by (simp add: zrep_right[symmetric])
qed

lemma zrep_node:
  "zrep T fs (Node l a k ps c r) \<Longrightarrow>
   store T a = Some \<lparr>key = k, payload = ps, color = c, parent = top fs,
                     left = ptr_of l, right = ptr_of r\<rparr>"
  by (simp add: zrep_def)

lemma assign_Some:
  "store T a = Some n \<Longrightarrow> assign (Some a) u T = Some (T\<lparr>store := (store T)(a \<mapsto> u n)\<rparr>)"
  by (simp add: assign_def)

lemma fld_Some: "store T a = Some n \<Longrightarrow> fld f T (Some a) = Some (f n)"
  by (simp add: fld_def deref_def)

lemma zrep_update:
  assumes "zrep T fs (Node l a k ps c r)"
  shows "zrep (T\<lparr>store := (store T)(a \<mapsto> \<lparr>key = k', payload = ps', color = c', parent = top fs,
                     left = ptr_of l, right = ptr_of r\<rparr>)\<rparr>) fs (Node l a k' ps' c' r)"
proof -
  let ?h' = "(store T)(a \<mapsto> \<lparr>key = k', payload = ps', color = c', parent = top fs,
                     left = ptr_of l, right = ptr_of r\<rparr>)"
  from assms have d: "a \<notin> set (addrs l)" "a \<notin> set (addrs r)" "a \<notin> set (zaddrs fs)"
    by (auto simp: zrep_def)
  from assms have "rep ?h' (Some a) l" "rep ?h' (Some a) r" "repc ?h' fs (Some a)"
    using d by (auto simp: zrep_def intro: rep_cong repc_cong)
  with assms show ?thesis by (simp add: zrep_def)
qed

lemma frames_cases:
  obtains (Nil) "fs = []"
  | (LeftOf) a k ps c r fs' where "fs = LeftOf a k ps c r # fs'"
  | (RightOf) l a k ps c fs' where "fs = RightOf l a k ps c # fs'"
proof (cases fs)
  case Nil
  then show ?thesis by (rule that(1))
next
  case (Cons f fs')
  then show ?thesis by (cases f) (auto intro: that)
qed

lemma fld_simp: "fld f T (Some a) = map_option f (store T a)"
  by (simp add: fld_def deref_def)

lemma assign_simp:
  "assign (Some a) u T =
     (case store T a of None \<Rightarrow> None | Some n \<Rightarrow> Some (T\<lparr>store := (store T)(a \<mapsto> u n)\<rparr>))"
  by (simp add: assign_def)

lemma rep_upd:
  "rep h par t \<Longrightarrow> a \<notin> set (addrs t) \<Longrightarrow> rep (h(a \<mapsto> n)) par t"
  by (erule rep_cong) auto

lemma repc_upd:
  "repc h fs hp \<Longrightarrow> a \<notin> set (zaddrs fs) \<Longrightarrow> repc (h(a \<mapsto> n)) fs hp"
  by (erule repc_cong) auto

lemma rep_reparent:
  "rep h par t \<Longrightarrow> ptr_of t = None \<Longrightarrow> rep h par' t"
  by (cases t) auto

lemma ptr_of_neq [simp]:
  "a \<notin> set (addrs t) \<Longrightarrow> ptr_of t \<noteq> Some a"
  "a \<notin> set (addrs t) \<Longrightarrow> Some a \<noteq> ptr_of t"
  by (cases t; auto)+

lemma zrep_rotateRight:
  assumes "zrep T fs (Node (Node A x xk xps xc B) y yk yps yc C)"
  shows "\<exists>T'. rotateRight (Some y) T = Some T'
           \<and> zrep T' fs (Node A x xk xps xc (Node B y yk yps yc C))
           \<and> allocated T' = allocated T"
proof -
  from assms have y: "store T y = Some \<lparr>key = yk, payload = yps, color = yc, parent = top fs,
                  left = Some x, right = ptr_of C\<rparr>"
    and x: "store T x = Some \<lparr>key = xk, payload = xps, color = xc, parent = Some y,
                  left = ptr_of A, right = ptr_of B\<rparr>"
    and d: "x \<noteq> y" "y \<noteq> x"
    and rA: "rep (store T) (Some x) A" and rB: "rep (store T) (Some x) B"
    and rC: "rep (store T) (Some y) C"
    and rc: "repc (store T) fs (Some y)"
    and rt: "root T = croot fs (Some y)"
    and dist: "distinct (addrs A @ x # addrs B @ y # addrs C @ zaddrs fs)"
    by (auto simp: zrep_def)
  show ?thesis
  proof (cases fs rule: frames_cases)
    case Nil
    show ?thesis
    proof (cases B)
      case Leaf
      with Nil x y d rA rB rC rc rt dist show ?thesis
        by (simp add: rotateRight_def fld_simp assign_simp zrep_def rep_upd)
    next
      case (Node Bl b bk bps bc Br)
      with Nil x y d rA rB rC rc rt dist show ?thesis
        by (simp add: rotateRight_def fld_simp assign_simp zrep_def rep_upd)
    qed
  next
    case (LeftOf g gk gps gc gr fs')
    show ?thesis
    proof (cases B)
      case Leaf
      with LeftOf x y d rA rB rC rc rt dist show ?thesis
        by (simp add: rotateRight_def fld_simp assign_simp zrep_def rep_upd repc_upd)
    next
      case (Node Bl b bk bps bc Br)
      with LeftOf x y d rA rB rC rc rt dist show ?thesis
        by (simp add: rotateRight_def fld_simp assign_simp zrep_def rep_upd repc_upd)
    qed
  next
    case (RightOf gl g gk gps gc fs')
    show ?thesis
    proof (cases B)
      case Leaf
      with RightOf x y d rA rB rC rc rt dist show ?thesis
        by (simp add: rotateRight_def fld_simp assign_simp zrep_def rep_upd repc_upd)
    next
      case (Node Bl b bk bps bc Br)
      with RightOf x y d rA rB rC rc rt dist show ?thesis
        by (simp add: rotateRight_def fld_simp assign_simp zrep_def rep_upd repc_upd)
    qed
  qed
qed

lemma zrep_rotateLeft:
  assumes "zrep T fs (Node A x xk xps xc (Node B y yk yps yc C))"
  shows "\<exists>T'. rotateLeft (Some x) T = Some T'
           \<and> zrep T' fs (Node (Node A x xk xps xc B) y yk yps yc C)
           \<and> allocated T' = allocated T"
proof -
  from assms have x: "store T x = Some \<lparr>key = xk, payload = xps, color = xc, parent = top fs,
                  left = ptr_of A, right = Some y\<rparr>"
    and y: "store T y = Some \<lparr>key = yk, payload = yps, color = yc, parent = Some x,
                  left = ptr_of B, right = ptr_of C\<rparr>"
    and d: "x \<noteq> y" "y \<noteq> x"
    and rA: "rep (store T) (Some x) A" and rB: "rep (store T) (Some y) B"
    and rC: "rep (store T) (Some y) C"
    and rc: "repc (store T) fs (Some x)"
    and rt: "root T = croot fs (Some x)"
    and dist: "distinct (addrs A @ x # addrs B @ y # addrs C @ zaddrs fs)"
    by (auto simp: zrep_def)
  show ?thesis
  proof (cases fs rule: frames_cases)
    case Nil
    show ?thesis
    proof (cases B)
      case Leaf
      with Nil x y d rA rB rC rc rt dist show ?thesis
        by (simp add: rotateLeft_def fld_simp assign_simp zrep_def rep_upd)
    next
      case (Node Bl b bk bps bc Br)
      with Nil x y d rA rB rC rc rt dist show ?thesis
        by (simp add: rotateLeft_def fld_simp assign_simp zrep_def rep_upd)
    qed
  next
    case (LeftOf g gk gps gc gr fs')
    show ?thesis
    proof (cases B)
      case Leaf
      with LeftOf x y d rA rB rC rc rt dist show ?thesis
        by (simp add: rotateLeft_def fld_simp assign_simp zrep_def rep_upd repc_upd)
    next
      case (Node Bl b bk bps bc Br)
      with LeftOf x y d rA rB rC rc rt dist show ?thesis
        by (simp add: rotateLeft_def fld_simp assign_simp zrep_def rep_upd repc_upd)
    qed
  next
    case (RightOf gl g gk gps gc fs')
    show ?thesis
    proof (cases B)
      case Leaf
      with RightOf x y d rA rB rC rc rt dist show ?thesis
        by (simp add: rotateLeft_def fld_simp assign_simp zrep_def rep_upd repc_upd)
    next
      case (Node Bl b bk bps bc Br)
      with RightOf x y d rA rB rC rc rt dist show ?thesis
        by (simp add: rotateLeft_def fld_simp assign_simp zrep_def rep_upd repc_upd)
    qed
  qed
qed

lemma body_recolor_L:
  assumes "zrep T (F # LeftOf g gk gps gc (Node ul u uk ups RED ur) # fs) (Node zl z zk zps zc zr)"
  shows "\<exists>T'. fixInsert_body (Some z) T = Some (Some g, T')
           \<and> zrep T' (paint BLACK F # LeftOf g gk gps RED (Node ul u uk ups BLACK ur) # fs)
                 (Node zl z zk zps zc zr)
           \<and> allocated T' = allocated T"
proof (cases F)
  case (LeftOf p pk pps pc S)
  with assms show ?thesis
    by (simp add: zrep_def fixInsert_body_def fld_simp assign_simp rep_upd repc_upd)
next
  case (RightOf S p pk pps pc)
  with assms show ?thesis
    by (simp add: zrep_def fixInsert_body_def fld_simp assign_simp rep_upd repc_upd)
qed

lemma body_recolor_R:
  assumes "zrep T (F # RightOf (Node ul u uk ups RED ur) g gk gps gc # fs) (Node zl z zk zps zc zr)"
  shows "\<exists>T'. fixInsert_body (Some z) T = Some (Some g, T')
           \<and> zrep T' (paint BLACK F # RightOf (Node ul u uk ups BLACK ur) g gk gps RED # fs)
                 (Node zl z zk zps zc zr)
           \<and> allocated T' = allocated T"
proof (cases F)
  case (LeftOf p pk pps pc S)
  with assms show ?thesis
    by (simp add: zrep_def fixInsert_body_def fld_simp assign_simp rep_upd repc_upd)
next
  case (RightOf S p pk pps pc)
  with assms show ?thesis
    by (simp add: zrep_def fixInsert_body_def fld_simp assign_simp rep_upd repc_upd)
qed

lemma body_LL:
  assumes z: "zrep T (LeftOf p pk pps pc S # LeftOf g gk gps gc U # fs) (Node zl z zk zps zc zr)"
    and u: "rc U = BLACK"
  shows "\<exists>T'. fixInsert_body (Some z) T = Some (Some z, T')
           \<and> zrep T' fs (Node (Node zl z zk zps zc zr) p pk pps BLACK (Node S g gk gps RED U))
           \<and> allocated T' = allocated T"
proof -
  let ?t = "Node zl z zk zps zc zr"
  let ?T1 = "T\<lparr>store := (store T)(p \<mapsto> \<lparr>key = pk, payload = pps, color = BLACK,
                 parent = Some g, left = Some z, right = ptr_of S\<rparr>)\<rparr>"
  let ?T2 = "?T1\<lparr>store := (store ?T1)(g \<mapsto> \<lparr>key = gk, payload = gps, color = RED,
                 parent = top fs, left = Some p, right = ptr_of U\<rparr>)\<rparr>"
  from z have "zrep T (LeftOf g gk gps gc U # fs) (Node ?t p pk pps pc S)"
    by (simp only: zrep_left)
  from zrep_update[OF this, of pk pps BLACK]
  have "zrep ?T1 (LeftOf g gk gps gc U # fs) (Node ?t p pk pps BLACK S)" by simp
  then have "zrep ?T1 fs (Node (Node ?t p pk pps BLACK S) g gk gps gc U)"
    by (simp only: zrep_left)
  from zrep_update[OF this, of gk gps RED]
  have z2: "zrep ?T2 fs (Node (Node ?t p pk pps BLACK S) g gk gps RED U)" by simp
  from zrep_rotateRight[OF z2] obtain T3 where
    rot: "rotateRight (Some g) ?T2 = Some T3"
    and z3: "zrep T3 fs (Node ?t p pk pps BLACK (Node S g gk gps RED U))"
    and al: "allocated T3 = allocated ?T2"
    by blast
  have "fixInsert_body (Some z) T = Some (Some z, T3)"
  proof (cases U)
    case Leaf
    with z rot show ?thesis
      by (simp add: zrep_def fixInsert_body_def fld_simp assign_simp)
  next
    case (Node ul u' uk ups uc ur)
    with z u rot show ?thesis
      by (simp add: zrep_def fixInsert_body_def fld_simp assign_simp)
  qed
  with z3 al show ?thesis by simp
qed

lemma body_LR:
  assumes z: "zrep T (RightOf S p pk pps pc # LeftOf g gk gps gc U # fs) (Node zl z zk zps zc zr)"
    and u: "rc U = BLACK"
  shows "\<exists>T'. fixInsert_body (Some z) T = Some (Some p, T')
           \<and> zrep T' fs (Node (Node S p pk pps pc zl) z zk zps BLACK (Node zr g gk gps RED U))
           \<and> allocated T' = allocated T"
proof -
  from z have "zrep T (LeftOf g gk gps gc U # fs) (Node S p pk pps pc (Node zl z zk zps zc zr))"
    by (simp only: zrep_right)
  from zrep_rotateLeft[OF this] obtain T1 where
    rotl: "rotateLeft (Some p) T = Some T1"
    and z1: "zrep T1 (LeftOf g gk gps gc U # fs) (Node (Node S p pk pps pc zl) z zk zps zc zr)"
    and al1: "allocated T1 = allocated T"
    by blast
  let ?P = "Node S p pk pps pc zl"
  let ?T2 = "T1\<lparr>store := (store T1)(z \<mapsto> \<lparr>key = zk, payload = zps, color = BLACK,
                 parent = Some g, left = Some p, right = ptr_of zr\<rparr>)\<rparr>"
  let ?T3 = "?T2\<lparr>store := (store ?T2)(g \<mapsto> \<lparr>key = gk, payload = gps, color = RED,
                 parent = top fs, left = Some z, right = ptr_of U\<rparr>)\<rparr>"
  from zrep_update[OF z1, of zk zps BLACK]
  have "zrep ?T2 (LeftOf g gk gps gc U # fs) (Node ?P z zk zps BLACK zr)" by simp
  then have "zrep ?T2 fs (Node (Node ?P z zk zps BLACK zr) g gk gps gc U)"
    by (simp only: zrep_left)
  from zrep_update[OF this, of gk gps RED]
  have z3: "zrep ?T3 fs (Node (Node ?P z zk zps BLACK zr) g gk gps RED U)" by simp
  from zrep_rotateRight[OF z3] obtain T4 where
    rot: "rotateRight (Some g) ?T3 = Some T4"
    and z4: "zrep T4 fs (Node ?P z zk zps BLACK (Node zr g gk gps RED U))"
    and al4: "allocated T4 = allocated ?T3"
    by blast
  have "fixInsert_body (Some z) T = Some (Some p, T4)"
  proof (cases U)
    case Leaf
    with z z1 rotl rot show ?thesis
      by (simp add: zrep_def fixInsert_body_def fld_simp assign_simp)
  next
    case (Node ul u' uk ups uc ur)
    with z z1 u rotl rot show ?thesis
      by (simp add: zrep_def fixInsert_body_def fld_simp assign_simp)
  qed
  with z4 al4 al1 show ?thesis by simp
qed

lemma body_RR:
  assumes z: "zrep T (RightOf S p pk pps pc # RightOf U g gk gps gc # fs) (Node zl z zk zps zc zr)"
    and u: "rc U = BLACK"
  shows "\<exists>T'. fixInsert_body (Some z) T = Some (Some z, T')
           \<and> zrep T' fs (Node (Node U g gk gps RED S) p pk pps BLACK (Node zl z zk zps zc zr))
           \<and> allocated T' = allocated T"
proof -
  let ?t = "Node zl z zk zps zc zr"
  let ?T1 = "T\<lparr>store := (store T)(p \<mapsto> \<lparr>key = pk, payload = pps, color = BLACK,
                 parent = Some g, left = ptr_of S, right = Some z\<rparr>)\<rparr>"
  let ?T2 = "?T1\<lparr>store := (store ?T1)(g \<mapsto> \<lparr>key = gk, payload = gps, color = RED,
                 parent = top fs, left = ptr_of U, right = Some p\<rparr>)\<rparr>"
  from z have "zrep T (RightOf U g gk gps gc # fs) (Node S p pk pps pc ?t)"
    by (simp only: zrep_right)
  from zrep_update[OF this, of pk pps BLACK]
  have "zrep ?T1 (RightOf U g gk gps gc # fs) (Node S p pk pps BLACK ?t)" by simp
  then have "zrep ?T1 fs (Node U g gk gps gc (Node S p pk pps BLACK ?t))"
    by (simp only: zrep_right)
  from zrep_update[OF this, of gk gps RED]
  have z2: "zrep ?T2 fs (Node U g gk gps RED (Node S p pk pps BLACK ?t))" by simp
  from zrep_rotateLeft[OF z2] obtain T3 where
    rot: "rotateLeft (Some g) ?T2 = Some T3"
    and z3: "zrep T3 fs (Node (Node U g gk gps RED S) p pk pps BLACK ?t)"
    and al: "allocated T3 = allocated ?T2"
    by blast
  have "fixInsert_body (Some z) T = Some (Some z, T3)"
  proof (cases U)
    case Leaf
    with z rot show ?thesis
      by (simp add: zrep_def fixInsert_body_def fld_simp assign_simp)
  next
    case (Node ul u' uk ups uc ur)
    with z u rot show ?thesis
      by (simp add: zrep_def fixInsert_body_def fld_simp assign_simp)
  qed
  with z3 al show ?thesis by simp
qed

lemma body_RL:
  assumes z: "zrep T (LeftOf p pk pps pc S # RightOf U g gk gps gc # fs) (Node zl z zk zps zc zr)"
    and u: "rc U = BLACK"
  shows "\<exists>T'. fixInsert_body (Some z) T = Some (Some p, T')
           \<and> zrep T' fs (Node (Node U g gk gps RED zl) z zk zps BLACK (Node zr p pk pps pc S))
           \<and> allocated T' = allocated T"
proof -
  from z have "zrep T (RightOf U g gk gps gc # fs) (Node (Node zl z zk zps zc zr) p pk pps pc S)"
    by (simp only: zrep_left)
  from zrep_rotateRight[OF this] obtain T1 where
    rotr: "rotateRight (Some p) T = Some T1"
    and z1: "zrep T1 (RightOf U g gk gps gc # fs) (Node zl z zk zps zc (Node zr p pk pps pc S))"
    and al1: "allocated T1 = allocated T"
    by blast
  let ?P = "Node zr p pk pps pc S"
  let ?T2 = "T1\<lparr>store := (store T1)(z \<mapsto> \<lparr>key = zk, payload = zps, color = BLACK,
                 parent = Some g, left = ptr_of zl, right = Some p\<rparr>)\<rparr>"
  let ?T3 = "?T2\<lparr>store := (store ?T2)(g \<mapsto> \<lparr>key = gk, payload = gps, color = RED,
                 parent = top fs, left = ptr_of U, right = Some z\<rparr>)\<rparr>"
  from zrep_update[OF z1, of zk zps BLACK]
  have "zrep ?T2 (RightOf U g gk gps gc # fs) (Node zl z zk zps BLACK ?P)" by simp
  then have "zrep ?T2 fs (Node U g gk gps gc (Node zl z zk zps BLACK ?P))"
    by (simp only: zrep_right)
  from zrep_update[OF this, of gk gps RED]
  have z3: "zrep ?T3 fs (Node U g gk gps RED (Node zl z zk zps BLACK ?P))" by simp
  from zrep_rotateLeft[OF z3] obtain T4 where
    rot: "rotateLeft (Some g) ?T3 = Some T4"
    and z4: "zrep T4 fs (Node (Node U g gk gps RED zl) z zk zps BLACK ?P)"
    and al4: "allocated T4 = allocated ?T3"
    by blast
  have "fixInsert_body (Some z) T = Some (Some p, T4)"
  proof (cases U)
    case Leaf
    with z z1 rotr rot show ?thesis
      by (simp add: zrep_def fixInsert_body_def fld_simp assign_simp)
  next
    case (Node ul u' uk ups uc ur)
    with z z1 u rotr rot show ?thesis
      by (simp add: zrep_def fixInsert_body_def fld_simp assign_simp)
  qed
  with z4 al4 al1 show ?thesis by simp
qed

lemma plug_inv:
  "(inv_c (plug fs t) \<and> inv_h (plug fs t)) = (inv_c t \<and> inv_h t \<and> cinv fs (rc t) (bh t))"
  by (induction fs t rule: plug.induct) auto

lemma cinv_black_top: "fcolor F = BLACK \<Longrightarrow> cinv (F # fs) c n = cinv (F # fs) c' n"
  by (cases F) auto

lemma nodes_plug_cong: "nodes t = nodes t' \<Longrightarrow> nodes (plug fs t) = nodes (plug fs t')"
  by (induction fs t arbitrary: t' rule: plug.induct) auto

lemma Color_neq [simp]: "(c \<noteq> RED) = (c = BLACK)" "(c \<noteq> BLACK) = (c = RED)"
  by (cases c; simp)+

lemma cond_eval:
  "zrep T fs (Node zl z zk zps zc zr) \<Longrightarrow>
   fixInsert_cond (Some z) T = Some (case fs of [] \<Rightarrow> False | F # _ \<Rightarrow> fcolor F = RED)"
proof (cases fs rule: frames_cases)
  case Nil
  assume "zrep T fs (Node zl z zk zps zc zr)"
  with Nil show ?thesis by (simp add: zrep_def fixInsert_cond_def fld_simp)
next
  case (LeftOf a k ps c r fs')
  assume "zrep T fs (Node zl z zk zps zc zr)"
  with LeftOf show ?thesis by (simp add: zrep_def fixInsert_cond_def fld_simp)
next
  case (RightOf l a k ps c fs')
  assume "zrep T fs (Node zl z zk zps zc zr)"
  with RightOf show ?thesis by (simp add: zrep_def fixInsert_cond_def fld_simp)
qed

lemma loop_exit:
  "fixInsert_cond z T = Some False \<Longrightarrow> fixInsert_loop z T = Some T"
  by (subst fixInsert_loop.simps) simp

lemma loop_step:
  "fixInsert_cond z T = Some True \<Longrightarrow> fixInsert_body z T = Some (z', T') \<Longrightarrow>
   fixInsert_loop z T = fixInsert_loop z' T'"
  by (subst fixInsert_loop.simps) simp

lemma zrep_frame: "zrep T (f # fs) t = zrep T fs (plug [f] t)"
  by (cases f) (simp_all add: zrep_left[symmetric] zrep_right[symmetric])

lemma plug_frame: "plug (f # fs) t = plug fs (plug [f] t)"
  by (cases f) simp_all

lemma nodes_paint: "nodes (plug [paint c f] t) = nodes (plug [f] t)"
  by (cases f) simp_all

lemma finish_rotation:
  assumes cond: "fixInsert_cond (Some z) T = Some True"
    and body: "fixInsert_body (Some z) T = Some (Some z', T')"
    and cond': "fixInsert_cond (Some z') T' = Some False"
    and zr': "zrep T' fs G'"
    and nd: "nodes G' = nodes G"
    and inv: "inv_c G'" "inv_h G'" "cinv fs (rc G') (bh G')"
    and al: "allocated T' = allocated T"
  shows "\<exists>T' tree. fixInsert_loop (Some z) T = Some T' \<and> zrep T' [] tree
           \<and> nodes tree = nodes (plug fs G)
           \<and> inv_c tree \<and> inv_h tree \<and> allocated T' = allocated T"
proof -
  have "fixInsert_loop (Some z) T = Some T'"
    using loop_step[OF cond body] loop_exit[OF cond'] by simp
  moreover have "zrep T' [] (plug fs G')" using zr' by (simp only: zrep_plug[symmetric])
  moreover have "nodes (plug fs G') = nodes (plug fs G)" by (rule nodes_plug_cong[OF nd])
  moreover have "inv_c (plug fs G') \<and> inv_h (plug fs G')" using inv by (simp only: plug_inv)
  ultimately show ?thesis using al by blast
qed

lemma fixInsert_loop_correct:
  assumes "zrep T fs (Node zl z zk zps RED zr)"
    and "inv_c (Node zl z zk zps RED zr)" "inv_h (Node zl z zk zps RED zr)"
    and "cinv fs BLACK (bh (Node zl z zk zps RED zr))"
    and "fs \<noteq> [] \<longrightarrow> fcolor (last fs) = BLACK"
  shows "\<exists>T' tree. fixInsert_loop (Some z) T = Some T' \<and> zrep T' [] tree
           \<and> nodes tree = nodes (plug fs (Node zl z zk zps RED zr))
           \<and> inv_c tree \<and> inv_h tree \<and> allocated T' = allocated T"
  using assms
proof (induction "length fs" arbitrary: fs T zl z zk zps zr rule: less_induct)
  case less
  let ?t = "Node zl z zk zps RED zr"
  note zr = less.prems(1) and ic = less.prems(2) and ih = less.prems(3)
    and ci = less.prems(4) and rb = less.prems(5)
  show ?case
  proof (cases fs)
    case Nil
    have "fixInsert_loop (Some z) T = Some T"
      using cond_eval[OF zr] Nil by (simp add: loop_exit)
    with zr ic ih Nil show ?thesis by auto
  next
    case (Cons F fs')
    show ?thesis
    proof (cases "fcolor F")
      case BLACK
      have "fixInsert_loop (Some z) T = Some T"
        using cond_eval[OF zr] Cons BLACK by (simp add: loop_exit)
      moreover have "zrep T [] (plug fs ?t)" using zr by (simp only: zrep_plug[symmetric])
      moreover have "cinv fs (rc ?t) (bh ?t)"
        using ci Cons cinv_black_top[OF BLACK, of fs' BLACK "bh ?t" "rc ?t"] by simp
      then have "inv_c (plug fs ?t) \<and> inv_h (plug fs ?t)"
        using ic ih by (simp only: plug_inv)
      ultimately show ?thesis by blast
    next
      case RED
      have cond: "fixInsert_cond (Some z) T = Some True"
        using cond_eval[OF zr] Cons RED by simp
      have "fs' \<noteq> []" using rb Cons RED by auto
      then obtain Gf fs'' where fs': "fs' = Gf # fs''" by (cases fs') auto
      have len: "length fs'' < length fs" using Cons fs' by simp
      have rb'': "fs'' \<noteq> [] \<longrightarrow> fcolor (last fs'') = BLACK"
        using rb Cons fs' by auto
      have fs: "fs = F # Gf # fs''" using Cons fs' by simp
      show ?thesis
      proof (cases Gf)
        case (LeftOf g gk gps gc U)
        have gc: "gc = BLACK" using ci fs LeftOf RED by (cases F) auto
        have cU: "inv_c U" "inv_h U" "bh U = bh zl" "cinv fs'' BLACK (Suc (bh zl))"
          using ci fs LeftOf RED gc by (cases F; auto)+
        show ?thesis
        proof (cases "rc U")
          case uRED: RED
          then obtain ul u uk ups ur where U: "U = Node ul u uk ups RED ur"
            by (cases U) auto
          from body_recolor_L[OF zr[unfolded fs LeftOf U]] obtain T1 where
            body: "fixInsert_body (Some z) T = Some (Some g, T1)"
            and z1: "zrep T1 (paint BLACK F # LeftOf g gk gps RED (Node ul u uk ups BLACK ur) # fs'') ?t"
            and al1: "allocated T1 = allocated T"
            by blast
          let ?G' = "Node (plug [paint BLACK F] ?t) g gk gps RED (Node ul u uk ups BLACK ur)"
          have zG: "zrep T1 fs'' ?G'"
            using z1 by (simp add: zrep_frame[of T1 "paint BLACK F"] zrep_left[symmetric])
          have icG: "inv_c ?G'" using ic ci fs LeftOf U RED cU by (cases F) auto
          have ihG: "inv_h ?G'" using ih ci fs LeftOf U RED cU by (cases F) auto
          have bhG: "bh ?G' = Suc (bh zl)" using ci fs LeftOf RED by (cases F) auto
          from less.hyps[OF len zG icG ihG _ rb''] cU(4) bhG obtain T' tree where
            r: "fixInsert_loop (Some g) T1 = Some T'" "zrep T' [] tree"
               "nodes tree = nodes (plug fs'' ?G')" "inv_c tree" "inv_h tree"
               "allocated T' = allocated T1"
            by auto
          have "nodes ?G' = nodes (plug [F, Gf] ?t)"
            using LeftOf U by (cases F) auto
          then have "nodes (plug fs'' ?G') = nodes (plug fs'' (plug [F, Gf] ?t))"
            by (rule nodes_plug_cong)
          also have "plug fs'' (plug [F, Gf] ?t) = plug fs ?t"
            unfolding fs by (cases F; cases Gf) auto
          finally have nd: "nodes (plug fs'' ?G') = nodes (plug fs ?t)" .
          have "fixInsert_loop (Some z) T = Some T'"
            using loop_step[OF cond body] r(1) by simp
          with r nd al1 show ?thesis by auto
        next
          case uBLACK: BLACK
          show ?thesis
          proof (cases F)
            case F: (LeftOf p pk pps pc S)
            have pc: "pc = RED" using RED F by simp
            from body_LL[OF zr[unfolded fs LeftOf F] uBLACK] obtain T' where
              body: "fixInsert_body (Some z) T = Some (Some z, T')"
              and z': "zrep T' fs'' (Node ?t p pk pps BLACK (Node S g gk gps RED U))"
              and al: "allocated T' = allocated T"
              by blast
            have cond': "fixInsert_cond (Some z) T' = Some False"
              using cond_eval[OF z'[unfolded zrep_left[of T' fs'' ?t]]] by simp
            have "\<exists>T' tree. fixInsert_loop (Some z) T = Some T' \<and> zrep T' [] tree
               \<and> nodes tree = nodes (plug fs'' (Node (Node ?t p pk pps pc S) g gk gps gc U))
               \<and> inv_c tree \<and> inv_h tree \<and> allocated T' = allocated T"
              using ic ih ci cU uBLACK unfolding fs LeftOf F
              by (intro finish_rotation[OF cond body cond' z' _ _ _ _ al]) auto
            then show ?thesis unfolding fs LeftOf F by simp
          next
            case F: (RightOf S p pk pps pc)
            have pc: "pc = RED" using RED F by simp
            from body_LR[OF zr[unfolded fs LeftOf F] uBLACK] obtain T' where
              body: "fixInsert_body (Some z) T = Some (Some p, T')"
              and z': "zrep T' fs'' (Node (Node S p pk pps pc zl) z zk zps BLACK (Node zr g gk gps RED U))"
              and al: "allocated T' = allocated T"
              by blast
            have cond': "fixInsert_cond (Some p) T' = Some False"
              using cond_eval[OF z'[unfolded zrep_left[of T' fs'' "Node S p pk pps pc zl"]]] by simp
            have "\<exists>T' tree. fixInsert_loop (Some z) T = Some T' \<and> zrep T' [] tree
               \<and> nodes tree = nodes (plug fs'' (Node (Node S p pk pps pc ?t) g gk gps gc U))
               \<and> inv_c tree \<and> inv_h tree \<and> allocated T' = allocated T"
              using ic ih ci cU uBLACK pc unfolding fs LeftOf F
              by (intro finish_rotation[OF cond body cond' z' _ _ _ _ al]) auto
            then show ?thesis unfolding fs LeftOf F by simp
          qed
        qed
      next
        case (RightOf U g gk gps gc)
        have gc: "gc = BLACK" using ci fs RightOf RED by (cases F) auto
        have cU: "inv_c U" "inv_h U" "bh U = bh zl" "cinv fs'' BLACK (Suc (bh zl))"
          using ci fs RightOf RED gc by (cases F; auto)+
        show ?thesis
        proof (cases "rc U")
          case uRED: RED
          then obtain ul u uk ups ur where U: "U = Node ul u uk ups RED ur"
            by (cases U) auto
          from body_recolor_R[OF zr[unfolded fs RightOf U]] obtain T1 where
            body: "fixInsert_body (Some z) T = Some (Some g, T1)"
            and z1: "zrep T1 (paint BLACK F # RightOf (Node ul u uk ups BLACK ur) g gk gps RED # fs'') ?t"
            and al1: "allocated T1 = allocated T"
            by blast
          let ?G' = "Node (Node ul u uk ups BLACK ur) g gk gps RED (plug [paint BLACK F] ?t)"
          have zG: "zrep T1 fs'' ?G'"
            using z1 by (simp add: zrep_frame[of T1 "paint BLACK F"] zrep_right[symmetric])
          have icG: "inv_c ?G'" using ic ci fs RightOf U RED cU by (cases F) auto
          have ihG: "inv_h ?G'" using ih ci fs RightOf U RED cU by (cases F) auto
          have bhG: "bh ?G' = Suc (bh zl)" using cU U by auto
          from less.hyps[OF len zG icG ihG _ rb''] cU(4) bhG obtain T' tree where
            r: "fixInsert_loop (Some g) T1 = Some T'" "zrep T' [] tree"
               "nodes tree = nodes (plug fs'' ?G')" "inv_c tree" "inv_h tree"
               "allocated T' = allocated T1"
            by auto
          have "nodes ?G' = nodes (plug [F, Gf] ?t)"
            using RightOf U by (cases F) auto
          then have "nodes (plug fs'' ?G') = nodes (plug fs'' (plug [F, Gf] ?t))"
            by (rule nodes_plug_cong)
          also have "plug fs'' (plug [F, Gf] ?t) = plug fs ?t"
            unfolding fs by (cases F; cases Gf) auto
          finally have nd: "nodes (plug fs'' ?G') = nodes (plug fs ?t)" .
          have "fixInsert_loop (Some z) T = Some T'"
            using loop_step[OF cond body] r(1) by simp
          with r nd al1 show ?thesis by auto
        next
          case uBLACK: BLACK
          show ?thesis
          proof (cases F)
            case F: (RightOf S p pk pps pc)
            have pc: "pc = RED" using RED F by simp
            from body_RR[OF zr[unfolded fs RightOf F] uBLACK] obtain T' where
              body: "fixInsert_body (Some z) T = Some (Some z, T')"
              and z': "zrep T' fs'' (Node (Node U g gk gps RED S) p pk pps BLACK ?t)"
              and al: "allocated T' = allocated T"
              by blast
            have cond': "fixInsert_cond (Some z) T' = Some False"
              using cond_eval[OF z'[unfolded zrep_right[of T' fs'' _ p pk pps BLACK ?t]]] by simp
            have "\<exists>T' tree. fixInsert_loop (Some z) T = Some T' \<and> zrep T' [] tree
               \<and> nodes tree = nodes (plug fs'' (Node U g gk gps gc (Node S p pk pps pc ?t)))
               \<and> inv_c tree \<and> inv_h tree \<and> allocated T' = allocated T"
              using ic ih ci cU uBLACK unfolding fs RightOf F
              by (intro finish_rotation[OF cond body cond' z' _ _ _ _ al]) auto
            then show ?thesis unfolding fs RightOf F by simp
          next
            case F: (LeftOf p pk pps pc S)
            have pc: "pc = RED" using RED F by simp
            from body_RL[OF zr[unfolded fs RightOf F] uBLACK] obtain T' where
              body: "fixInsert_body (Some z) T = Some (Some p, T')"
              and z': "zrep T' fs'' (Node (Node U g gk gps RED zl) z zk zps BLACK (Node zr p pk pps pc S))"
              and al: "allocated T' = allocated T"
              by blast
            have cond': "fixInsert_cond (Some p) T' = Some False"
              using cond_eval[OF z'[unfolded zrep_right[of T' fs'' _ z zk zps BLACK "Node zr p pk pps pc S"]]] by simp
            have "\<exists>T' tree. fixInsert_loop (Some z) T = Some T' \<and> zrep T' [] tree
               \<and> nodes tree = nodes (plug fs'' (Node U g gk gps gc (Node ?t p pk pps pc S)))
               \<and> inv_c tree \<and> inv_h tree \<and> allocated T' = allocated T"
              using ic ih ci cU uBLACK pc unfolding fs RightOf F
              by (intro finish_rotation[OF cond body cond' z' _ _ _ _ al]) auto
            then show ?thesis unfolding fs RightOf F by simp
          qed
        qed
      qed
    qed
  qed
qed

section \<open>Red-black tree: insertion and search\<close>

lemma keys_nodes: "keys t = map (\<lambda>x. fst (snd x)) (nodes t)"
  by (induction t) auto

lemma entries_nodes: "entries t = map snd (nodes t)"
  by (induction t) auto

lemma addrs_nodes: "addrs t = map fst (nodes t)"
  by (induction t) auto

lemma nodes_Nil_iff: "nodes t = [] \<longleftrightarrow> t = Leaf"
  by (cases t) auto

lemma plug_Leaf_iff: "plug fs t = Leaf \<longleftrightarrow> fs = [] \<and> t = Leaf"
  by (induction fs t rule: plug.induct) auto

lemma fixInsert_correct:
  assumes "zrep T fs (Node zl z zk zps RED zr)"
    and "inv_c (Node zl z zk zps RED zr)" "inv_h (Node zl z zk zps RED zr)"
    and "cinv fs BLACK (bh (Node zl z zk zps RED zr))"
    and "fs \<noteq> [] \<longrightarrow> fcolor (last fs) = BLACK"
  shows "\<exists>T' tree. fixInsert (Some z) T = Some T' \<and> zrep T' [] tree
           \<and> nodes tree = nodes (plug fs (Node zl z zk zps RED zr))
           \<and> inv_c tree \<and> inv_h tree \<and> rc tree = BLACK \<and> allocated T' = allocated T"
proof -
  from fixInsert_loop_correct[OF assms] obtain T1 tree where
    l: "fixInsert_loop (Some z) T = Some T1" and z1: "zrep T1 [] tree"
    and nd: "nodes tree = nodes (plug fs (Node zl z zk zps RED zr))"
    and inv: "inv_c tree" "inv_h tree" and al: "allocated T1 = allocated T"
    by blast
  have "nodes (plug fs (Node zl z zk zps RED zr)) \<noteq> []"
    by (simp add: nodes_Nil_iff plug_Leaf_iff)
  with nd have "nodes tree \<noteq> []" by simp
  then have "tree \<noteq> Leaf" by (simp add: nodes_Nil_iff)
  then obtain l a k ps c r where tree: "tree = Node l a k ps c r" by (cases tree) auto
  let ?T2 = "T1\<lparr>store := (store T1)(a \<mapsto> \<lparr>key = k, payload = ps, color = BLACK, parent = top [],
                     left = ptr_of l, right = ptr_of r\<rparr>)\<rparr>"
  have z2: "zrep ?T2 [] (Node l a k ps BLACK r)"
    by (rule zrep_update[OF z1[unfolded tree]])
  have "fixInsert (Some z) T = Some ?T2"
    using l z1 tree by (simp add: fixInsert_def zrep_def assign_simp)
  moreover have "nodes (Node l a k ps BLACK r) = nodes (plug fs (Node zl z zk zps RED zr))"
    using nd tree by simp
  moreover have "inv_c (Node l a k ps BLACK r)" "inv_h (Node l a k ps BLACK r)"
    using inv tree by auto
  ultimately show ?thesis using z2 al
    by (intro exI[of _ ?T2] exI[of _ "Node l a k ps BLACK r"]) simp
qed

lemma descend_plug: "descend k fs t = (fs', t') \<Longrightarrow> plug fs' t' = plug fs t"
  by (induction k fs t rule: descend.induct) (auto split: if_splits)

lemma descend_result:
  "descend k fs t = (fs', t') \<Longrightarrow> t' = Leaf \<or> (\<exists>l a ps c r. t' = Node l a k ps c r)"
  by (induction k fs t rule: descend.induct) (auto split: if_splits)

lemma descend_directed:
  "descend k fs t = (fs', t') \<Longrightarrow> \<forall>f \<in> set fs. directed k f \<Longrightarrow> \<forall>f \<in> set fs'. directed k f"
  by (induction k fs t rule: descend.induct) (auto split: if_splits)

lemma descend_sim:
  assumes "zrep T fs t"
  shows "insert_descend k p (top fs) (ptr_of t) T =
     (case descend k fs t of
        (fs', Leaf) \<Rightarrow> Some (Inr (top fs'))
      | (fs', Node l a ck ps c r) \<Rightarrow>
          Some (Inl (T\<lparr>store := (store T)(a \<mapsto> \<lparr>key = ck, payload = ps @ [p], color = c,
                     parent = top fs', left = ptr_of l, right = ptr_of r\<rparr>)\<rparr>)))"
  using assms
proof (induction t arbitrary: fs)
  case Leaf
  show ?case by (subst insert_descend.simps) simp
next
  case (Node l a ck ps c r)
  note z = Node.prems
  have st: "store T a = Some \<lparr>key = ck, payload = ps, color = c, parent = top fs,
                     left = ptr_of l, right = ptr_of r\<rparr>"
    by (rule zrep_node[OF z])
  show ?case
  proof (cases "k = ck")
    case True
    then show ?thesis
      by (subst insert_descend.simps) (simp add: fld_simp assign_simp st)
  next
    case ne: False
    show ?thesis
    proof (cases "k < ck")
      case True
      have "zrep T (LeftOf a ck ps c r # fs) l" using z by (simp only: zrep_left)
      from Node.IH(1)[OF this] ne True show ?thesis
        by (subst insert_descend.simps) (simp add: fld_simp st)
    next
      case False
      have "zrep T (RightOf l a ck ps c # fs) r" using z by (simp only: zrep_right)
      from Node.IH(2)[OF this] ne False show ?thesis
        by (subst insert_descend.simps) (simp add: fld_simp st)
    qed
  qed
qed

lemma zaddrs_plug: "set (addrs (plug fs t)) = set (addrs t) \<union> set (zaddrs fs)"
  by (induction fs t rule: plug.induct) auto

lemma insert_new:
  assumes z: "zrep T [] tree" and d: "descend (fullName (data ! p)) [] tree = (fs, Leaf)"
    and fresh: "allocated T \<notin> set (addrs tree)"
  shows "\<exists>T1. RBTree_insert data p T = fixInsert (Some (allocated T)) T1
           \<and> zrep T1 fs (Node Leaf (allocated T) (fullName (data ! p)) [p] RED Leaf)
           \<and> allocated T1 = Suc (allocated T)"
proof -
  let ?k = "fullName (data ! p)" and ?n = "allocated T"
  have pl: "plug fs Leaf = tree" using descend_plug[OF d] by simp
  have zf: "zrep T fs Leaf" using z pl by (simp add: zrep_plug[of T fs Leaf])
  have rt: "root T = ptr_of tree" using z by (simp add: zrep_def)
  have des: "insert_descend ?k p None (root T) T = Some (Inr (top fs))"
    using descend_sim[OF z, of ?k p] d rt by simp
  have dir: "\<forall>f \<in> set fs. directed ?k f"
    using descend_directed[OF d] by simp
  have fr: "?n \<notin> set (zaddrs fs)"
    using fresh pl zaddrs_plug[of fs Leaf] by auto
  show ?thesis
  proof (cases fs rule: frames_cases)
    case Nil
    with zf des fr show ?thesis
      apply (simp add: RBTree_insert_def new_RBTNode_def assign_simp fld_simp zrep_def)
      apply (rule exI, rule conjI, rule refl)
      apply simp
      done
  next
    case (LeftOf a ck ps c r fs')
    with zf des fr dir show ?thesis
      apply (simp add: RBTree_insert_def new_RBTNode_def assign_simp fld_simp zrep_def)
      apply (rule exI, rule conjI, rule refl)
      apply (simp add: rep_upd repc_upd)
      done
  next
    case (RightOf l a ck ps c fs')
    then have "\<not> ?k < ck" using dir by auto
    with RightOf zf des fr dir show ?thesis
      apply (simp add: RBTree_insert_def new_RBTNode_def assign_simp fld_simp zrep_def)
      apply (rule exI, rule conjI, rule refl)
      apply (simp add: rep_upd repc_upd)
      done
  qed
qed

lemma insert_found:
  assumes z: "zrep T [] tree"
    and d: "descend (fullName (data ! p)) [] tree = (fs, Node l a ck ps c r)"
  shows "RBTree_insert data p T =
           Some (T\<lparr>store := (store T)(a \<mapsto> \<lparr>key = ck, payload = ps @ [p], color = c,
                     parent = top fs, left = ptr_of l, right = ptr_of r\<rparr>)\<rparr>)
         \<and> zrep (T\<lparr>store := (store T)(a \<mapsto> \<lparr>key = ck, payload = ps @ [p], color = c,
                     parent = top fs, left = ptr_of l, right = ptr_of r\<rparr>)\<rparr>) []
               (plug fs (Node l a ck (ps @ [p]) c r))
         \<and> ck = fullName (data ! p) \<and> tree = plug fs (Node l a ck ps c r)
         \<and> store T a = Some \<lparr>key = ck, payload = ps, color = c,
                     parent = top fs, left = ptr_of l, right = ptr_of r\<rparr>"
proof -
  let ?k = "fullName (data ! p)"
  have pl: "plug fs (Node l a ck ps c r) = tree" using descend_plug[OF d] by simp
  have zf: "zrep T fs (Node l a ck ps c r)" using z pl by (simp add: zrep_plug[of T fs])
  have rt: "root T = ptr_of tree" using z by (simp add: zrep_def)
  have ck: "ck = ?k" using descend_result[OF d] by auto
  have des: "insert_descend ?k p None (root T) T =
       Some (Inl (T\<lparr>store := (store T)(a \<mapsto> \<lparr>key = ck, payload = ps @ [p], color = c,
                     parent = top fs, left = ptr_of l, right = ptr_of r\<rparr>)\<rparr>))"
    using descend_sim[OF z, of ?k p] d rt by simp
  have "zrep (T\<lparr>store := (store T)(a \<mapsto> \<lparr>key = ck, payload = ps @ [p], color = c,
                     parent = top fs, left = ptr_of l, right = ptr_of r\<rparr>)\<rparr>) fs
               (Node l a ck (ps @ [p]) c r)"
    by (rule zrep_update[OF zf])
  then have "zrep (T\<lparr>store := (store T)(a \<mapsto> \<lparr>key = ck, payload = ps @ [p], color = c,
                     parent = top fs, left = ptr_of l, right = ptr_of r\<rparr>)\<rparr>) []
               (plug fs (Node l a ck (ps @ [p]) c r))"
    by (simp only: zrep_plug[symmetric])
  with des ck pl zrep_node[OF zf] show ?thesis
    by (simp add: RBTree_insert_def)
qed

lemma nodes_plug: "nodes (plug fs t) = nl fs @ nodes t @ nr fs"
  by (induction fs t rule: plug.induct) auto

lemma rc_plug: "rc (plug fs t) = (if fs = [] then rc t else fcolor (last fs))"
  by (induction fs t rule: plug.induct) (auto split: if_splits)

lemma directed_bounds:
  assumes "sorted_wrt (<) (map (\<lambda>x. fst (snd x)) (nl fs @ X @ nr fs))"
    and "\<forall>f \<in> set fs. directed k f"
  shows "(\<forall>x \<in> set (nl fs). fst (snd x) < k) \<and> (\<forall>x \<in> set (nr fs). k < fst (snd x))"
  using assms
proof (induction fs arbitrary: X)
  case Nil
  then show ?case by simp
next
  case (Cons f fs)
  show ?case
  proof (cases f)
    case (LeftOf a ck ps c r)
    have s: "sorted_wrt (<) (map (\<lambda>x. fst (snd x)) (nl fs @ (X @ (a, ck, ps) # nodes r) @ nr fs))"
      using Cons.prems(1) LeftOf by simp
    from Cons.IH[OF s] Cons.prems(2)
    have ih: "(\<forall>x \<in> set (nl fs). fst (snd x) < k) \<and> (\<forall>x \<in> set (nr fs). k < fst (snd x))"
      by simp
    have k: "k < ck" using Cons.prems(2) LeftOf by simp
    have "\<forall>x \<in> set (nodes r). ck < fst (snd x)"
      using Cons.prems(1) LeftOf by (auto simp: sorted_wrt_append)
    with k have "\<forall>x \<in> set (nodes r). k < fst (snd x)" by (auto intro: less_trans)
    with ih k LeftOf show ?thesis by auto
  next
    case (RightOf l a ck ps c)
    have s: "sorted_wrt (<) (map (\<lambda>x. fst (snd x)) (nl fs @ (nodes l @ (a, ck, ps) # X) @ nr fs))"
      using Cons.prems(1) RightOf by simp
    from Cons.IH[OF s] Cons.prems(2)
    have ih: "(\<forall>x \<in> set (nl fs). fst (snd x) < k) \<and> (\<forall>x \<in> set (nr fs). k < fst (snd x))"
      by simp
    have k: "ck < k" using Cons.prems(2) RightOf by simp
    have "\<forall>x \<in> set (nodes l). fst (snd x) < ck"
      using Cons.prems(1) RightOf by (auto simp: sorted_wrt_append)
    with k have "\<forall>x \<in> set (nodes l). fst (snd x) < k" by (auto intro: less_trans)
    with ih k RightOf show ?thesis by auto
  qed
qed

lemma keys_entries: "set (keys t) = fst ` set (entries t)"
  by (induction t) auto

lemma alookup_entries:
  "sorted_wrt (<) (keys t) \<Longrightarrow> alookup k t = lookup_entries (entries t) k"
proof (induction t)
  case Leaf
  then show ?case by (simp add: lookup_entries_def)
next
  case (Node l a ck ps c r)
  have sl: "sorted_wrt (<) (keys l)" and sr: "sorted_wrt (<) (keys r)"
    and bl: "\<forall>x \<in> set (keys l). x < ck" and br: "\<forall>x \<in> set (keys r). ck < x"
    using Node.prems by (auto simp: sorted_wrt_append)
  have kl: "fst ` set (entries l) = set (keys l)" and kr: "fst ` set (entries r) = set (keys r)"
    by (simp_all add: keys_entries)
  show ?case
  proof (cases "k = ck")
    case True
    have "k \<notin> set (keys l)" using bl True by auto
    then have "map_of (entries l) k = None" by (simp add: map_of_eq_None_iff kl)
    with True show ?thesis by (simp add: lookup_entries_def map_add_def)
  next
    case ne: False
    show ?thesis
    proof (cases "k < ck")
      case True
      have "k \<notin> set (keys r)" using br True by (auto dest: less_asym)
      then have "map_of (entries r) k = None" by (simp add: map_of_eq_None_iff kr)
      with ne True Node.IH(1)[OF sl] show ?thesis
        by (simp add: lookup_entries_def map_add_def split: option.splits)
    next
      case False
      with ne have "ck < k" by auto
      then have "k \<notin> set (keys l)" using bl by (auto dest: less_asym)
      then have "map_of (entries l) k = None" by (simp add: map_of_eq_None_iff kl)
      with ne False Node.IH(2)[OF sr] show ?thesis
        by (simp add: lookup_entries_def map_add_def split: option.splits)
    qed
  qed
qed

lemma lookup_entries_insert:
  assumes "sorted_wrt (<) (map fst (A @ (k, v) # B))"
  shows "lookup_entries (A @ (k, v) # B) k' =
           (if k' = k then v else lookup_entries (A @ B) k')"
proof -
  have "k \<notin> fst ` set A" using assms by (auto simp: sorted_wrt_append)
  then have "map_of A k = None" by (simp add: map_of_eq_None_iff)
  then show ?thesis
    by (auto simp: lookup_entries_def map_add_def split: option.splits)
qed

lemma lookup_entries_absent:
  "k \<notin> fst ` set es \<Longrightarrow> lookup_entries es k = []"
  by (simp add: lookup_entries_def map_of_eq_None_iff[THEN iffD2])

lemma search_sim:
  "rep (store T) par t \<Longrightarrow> search_loop k (ptr_of t) T = Some (alookup k t)"
proof (induction t arbitrary: par)
  case Leaf
  show ?case by (subst search_loop.simps) simp
next
  case (Node l a ck ps c r)
  then show ?case
    by (subst search_loop.simps) (auto simp: fld_simp)
qed

lemma sorted_insert_mid:
  assumes "sorted_wrt (<) (xs @ ys)" "\<forall>x \<in> set xs. x < k" "\<forall>y \<in> set ys. k < y"
  shows "sorted_wrt (<) (xs @ (k :: string) # ys)"
  using assms by (auto simp: sorted_wrt_append)

lemma RBTree_insert_correct:
  assumes inv: "rbt_inv T t"
  shows "\<exists>T' t'. RBTree_insert data p T = Some T' \<and> rbt_inv T' t'
           \<and> (\<forall>k'. alookup k' t' =
                 (if k' = fullName (data ! p) then alookup k' t @ [p] else alookup k' t))"
proof -
  let ?k = "fullName (data ! p)"
  obtain fs t0 where d: "descend ?k [] t = (fs, t0)" by force
  from inv have z: "zrep T [] t" and bound: "\<forall>a \<in> set (addrs t). a < allocated T"
    and srt: "sorted_wrt (<) (keys t)" and rcb: "rc t = BLACK"
    and ic: "inv_c t" and ih: "inv_h t"
    by (simp_all add: rbt_inv_def)
  have pl: "plug fs t0 = t" using descend_plug[OF d] by simp
  have dir: "\<forall>f \<in> set fs. directed ?k f" using descend_directed[OF d] by simp
  have nd: "nodes t = nl fs @ nodes t0 @ nr fs" using nodes_plug[of fs t0] pl by simp
  have srt': "sorted_wrt (<) (map (\<lambda>x. fst (snd x)) (nl fs @ nodes t0 @ nr fs))"
    using srt nd by (simp add: keys_nodes comp_def)
  from directed_bounds[OF srt' dir]
  have bl: "\<forall>x \<in> set (nl fs). fst (snd x) < ?k" and br: "\<forall>x \<in> set (nr fs). ?k < fst (snd x)"
    by simp_all
  have ci: "cinv fs (rc t0) (bh t0)" and ic0: "inv_c t0" and ih0: "inv_h t0"
    using ic ih plug_inv[of fs t0] pl by simp_all
  have last: "fs \<noteq> [] \<longrightarrow> fcolor (last fs) = BLACK"
    using rcb rc_plug[of fs t0] pl by (auto split: if_splits)
  from descend_result[OF d] show ?thesis
  proof
    assume t0: "t0 = Leaf"
    let ?n = "allocated T"
    let ?new = "Node Leaf ?n ?k [p] RED Leaf"
    have fresh: "?n \<notin> set (addrs t)" using bound by auto
    from insert_new[OF z d[unfolded t0] fresh] obtain T1 where
      i1: "RBTree_insert data p T = fixInsert (Some ?n) T1"
      and z1: "zrep T1 fs ?new" and al1: "allocated T1 = Suc ?n"
      by blast
    have ci': "cinv fs BLACK (bh ?new)" using ci t0 by simp
    from fixInsert_correct[OF z1 _ _ ci' last] obtain T' t' where
      f: "fixInsert (Some ?n) T1 = Some T'" and z': "zrep T' [] t'"
      and nd': "nodes t' = nodes (plug fs ?new)"
      and inv': "inv_c t'" "inv_h t'" "rc t' = BLACK" and al': "allocated T' = allocated T1"
      by auto
    have nd'': "nodes t' = nl fs @ (?n, ?k, [p]) # nr fs"
      using nd' by (simp add: nodes_plug)
    have ndt: "nodes t = nl fs @ nr fs" using nd t0 by simp
    have "set (addrs t') = insert ?n (set (addrs t))"
      by (simp add: addrs_nodes nd'' ndt)
    then have bound': "\<forall>a \<in> set (addrs t'). a < allocated T'"
      using bound al' al1 by auto
    have "sorted_wrt (<) (map (\<lambda>x. fst (snd x)) (nl fs) @ ?k # map (\<lambda>x. fst (snd x)) (nr fs))"
      using srt' t0 bl br by (intro sorted_insert_mid) auto
    then have srt2: "sorted_wrt (<) (keys t')"
      by (simp add: keys_nodes nd'' comp_def)
    have rb: "rbt_inv T' t'"
      using z' bound' srt2 inv' by (simp add: rbt_inv_def)
    have e': "entries t' = map snd (nl fs) @ (?k, [p]) # map snd (nr fs)"
      by (simp add: entries_nodes nd'')
    have e: "entries t = map snd (nl fs) @ map snd (nr fs)"
      by (simp add: entries_nodes ndt)
    have se': "sorted_wrt (<) (map fst (map snd (nl fs) @ (?k, [p]) # map snd (nr fs)))"
      using srt2 by (simp add: keys_nodes nd'' comp_def)
    have "?k \<notin> fst ` set (entries t)"
      using bl br by (auto simp: e)
    then have old: "lookup_entries (entries t) ?k = []"
      by (rule lookup_entries_absent)
    have "alookup k' t' = (if k' = ?k then alookup k' t @ [p] else alookup k' t)" for k'
      using lookup_entries_insert[OF se', of k'] old
      by (simp add: alookup_entries[OF srt] alookup_entries[OF srt2] e e')
    with i1 f rb show ?thesis by auto
  next
    assume "\<exists>l a ps c r. t0 = Node l a ?k ps c r"
    then obtain l a ps c r where t0: "t0 = Node l a ?k ps c r" by blast
    let ?T' = "T\<lparr>store := (store T)(a \<mapsto> \<lparr>key = ?k, payload = ps @ [p], color = c,
                     parent = top fs, left = ptr_of l, right = ptr_of r\<rparr>)\<rparr>"
    let ?t' = "plug fs (Node l a ?k (ps @ [p]) c r)"
    from insert_found[OF z d[unfolded t0]]
    have i1: "RBTree_insert data p T = Some ?T'" and z': "zrep ?T' [] ?t'"
      by simp_all
    have nd': "nodes ?t' = nl fs @ nodes l @ (a, ?k, ps @ [p]) # nodes r @ nr fs"
      by (simp add: nodes_plug)
    have ndt: "nodes t = nl fs @ nodes l @ (a, ?k, ps) # nodes r @ nr fs"
      using nd t0 by simp
    have "addrs ?t' = addrs t" by (simp add: addrs_nodes nd' ndt)
    then have bound': "\<forall>a \<in> set (addrs ?t'). a < allocated ?T'" using bound by simp
    have "keys ?t' = keys t" by (simp add: keys_nodes nd' ndt)
    then have srt2: "sorted_wrt (<) (keys ?t')" using srt by simp
    have "rc ?t' = rc (plug fs t0)" by (simp add: rc_plug t0)
    then have rc': "rc ?t' = BLACK" using rcb pl by simp
    have "inv_c ?t' \<and> inv_h ?t'"
      using ci ic0 ih0 unfolding t0 by (subst plug_inv) simp
    with z' bound' srt2 rc' have rb: "rbt_inv ?T' ?t'" by (simp add: rbt_inv_def)
    let ?A = "map snd (nl fs @ nodes l)" and ?B = "map snd (nodes r @ nr fs)"
    have e': "entries ?t' = ?A @ (?k, ps @ [p]) # ?B" by (simp add: entries_nodes nd')
    have e: "entries t = ?A @ (?k, ps) # ?B" by (simp add: entries_nodes ndt)
    have se: "sorted_wrt (<) (map fst (?A @ (?k, ps) # ?B))"
      using srt by (simp add: keys_nodes ndt comp_def)
    have se': "sorted_wrt (<) (map fst (?A @ (?k, ps @ [p]) # ?B))"
      using srt2 by (simp add: keys_nodes nd' comp_def)
    have L': "lookup_entries (entries ?t') k' =
                (if k' = ?k then ps @ [p] else lookup_entries (?A @ ?B) k')" for k'
      unfolding e' by (rule lookup_entries_insert[OF se'])
    have L: "lookup_entries (entries t) k' =
                (if k' = ?k then ps else lookup_entries (?A @ ?B) k')" for k'
      unfolding e by (rule lookup_entries_insert[OF se])
    have "alookup k' ?t' = (if k' = ?k then alookup k' t @ [p] else alookup k' t)" for k'
      by (simp add: alookup_entries[OF srt] alookup_entries[OF srt2] L L')
    with i1 rb show ?thesis by blast
  qed
qed

section \<open>Red-black tree: invariants after every insertion\<close>

lemma no_red_red_inv_c: "no_red_red t = inv_c t"
  by (induction t) auto

lemma black_paths_bh: "inv_h t \<Longrightarrow> \<forall>m \<in> set (black_paths t). m = bh t"
  by (induction t) auto

lemma inv_h_subtrees: "inv_h t \<Longrightarrow> s \<in> set (subtrees t) \<Longrightarrow> inv_h s"
  by (induction t) auto

lemma black_paths_nonempty: "black_paths t \<noteq> []"
  by (induction t) auto

lemma bst_ordered_sorted: "bst_ordered t = sorted_wrt (<) (keys t)"
  by (induction t) (auto simp: sorted_wrt_append intro: less_trans)

lemma path_balancedD:
  "path_balanced t \<Longrightarrow> s \<in> set (subtrees t) \<Longrightarrow> m \<in> set (black_paths s) \<Longrightarrow>
   n \<in> set (black_paths s) \<Longrightarrow> m = n"
  unfolding path_balanced_def by blast

lemma self_subtree: "t \<in> set (subtrees t)"
  by (cases t) simp_all

lemma path_balanced_children:
  assumes "path_balanced (Node l a k ps c r)"
  shows "path_balanced l" "path_balanced r"
proof -
  have "set (subtrees l) \<subseteq> set (subtrees (Node l a k ps c r))"
       "set (subtrees r) \<subseteq> set (subtrees (Node l a k ps c r))"
    by auto
  with assms show "path_balanced l" "path_balanced r"
    unfolding path_balanced_def by blast+
qed

lemma path_balanced_inv_h: "path_balanced t = inv_h t"
proof
  assume h: "inv_h t"
  show "path_balanced t"
    unfolding path_balanced_def
  proof (intro ballI)
    fix s m n
    assume s: "s \<in> set (subtrees t)" and m: "m \<in> set (black_paths s)"
      and n: "n \<in> set (black_paths s)"
    have "inv_h s" by (rule inv_h_subtrees[OF h s])
    then have b: "\<forall>x \<in> set (black_paths s). x = bh s" by (rule black_paths_bh)
    from b m have "m = bh s" by (rule bspec)
    moreover from b n have "n = bh s" by (rule bspec)
    ultimately show "m = n" by simp
  qed
next
  assume "path_balanced t"
  then show "inv_h t"
  proof (induction t)
    case Leaf
    then show ?case by simp
  next
    case (Node l a k ps c r)
    have ih: "inv_h l" "inv_h r"
      using Node.IH path_balanced_children[OF Node.prems] by simp_all
    obtain m where m: "m \<in> set (black_paths l)"
      using black_paths_nonempty[of l] by (cases "black_paths l") auto
    obtain n where n: "n \<in> set (black_paths r)"
      using black_paths_nonempty[of r] by (cases "black_paths r") auto
    let ?f = "\<lambda>n. if c = BLACK then Suc n else n"
    have "?f m \<in> set (black_paths (Node l a k ps c r))"
         "?f n \<in> set (black_paths (Node l a k ps c r))"
      using m n by simp_all
    from path_balancedD[OF Node.prems self_subtree this]
    have "m = n" by (simp split: if_splits)
    moreover have "m = bh l" "n = bh r"
      using black_paths_bh[OF ih(1)] black_paths_bh[OF ih(2)] m n by simp_all
    ultimately show ?case using ih by simp
  qed
qed

lemma red_black_rbt_inv: "red_black T t = rbt_inv T t"
  by (simp add: red_black_def rbt_inv_def zrep_def bst_ordered_sorted no_red_red_inv_c
        path_balanced_inv_h conj_ac)

lemma rbt_inv_empty: "rbt_inv RBTree_empty Leaf"
  by (simp add: rbt_inv_def zrep_def RBTree_empty_def)

lemma RBTree_inserts_correct:
  assumes "rbt_inv T t"
  shows "\<exists>T' t'. RBTree_inserts data ps T = Some T' \<and> rbt_inv T' t'
           \<and> (\<forall>k. alookup k t' = alookup k t @ matches data k ps)"
  using assms
proof (induction ps arbitrary: T t)
  case Nil
  then show ?case by (auto simp: matches_simps)
next
  case (Cons p ps)
  from RBTree_insert_correct[OF Cons.prems, of data p] obtain T1 t1 where
    i: "RBTree_insert data p T = Some T1" and inv1: "rbt_inv T1 t1"
    and l1: "\<And>k'. alookup k' t1 =
                 (if k' = fullName (data ! p) then alookup k' t @ [p] else alookup k' t)"
    by blast
  from Cons.IH[OF inv1] obtain T' t' where
    r: "RBTree_inserts data ps T1 = Some T'" "rbt_inv T' t'"
       "\<And>k. alookup k t' = alookup k t1 @ matches data k ps"
    by blast
  have "alookup k t' = alookup k t @ matches data k (p # ps)" for k
    using r(3)[of k] l1[of k] by (simp add: matches_simps)
  with i r show ?case by auto
qed

lemma RBTree_search_inv:
  "rbt_inv T t \<Longrightarrow> RBTree_search k T = Some (alookup k t)"
  using search_sim[of T None t k] by (simp add: RBTree_search_def rbt_inv_def zrep_def)

lemma RBTree_search_build:
  "\<exists>T. RBTree_build data = Some T \<and> RBTree_search k T = Some (linearSearch data k)"
proof -
  from RBTree_inserts_correct[OF rbt_inv_empty, of data "[0..<length data]"] obtain T t where
    b: "RBTree_inserts data [0..<length data] RBTree_empty = Some T" "rbt_inv T t"
       "\<And>k. alookup k t = alookup k Leaf @ matches data k [0..<length data]"
    by blast
  then show ?thesis
    using RBTree_search_inv[OF b(2), of k]
    by (simp add: RBTree_build_def linearSearch_matches)
qed

lemma descend_Leaf_absent:
  assumes "sorted_wrt (<) (keys t)" "descend k [] t = (fs, Leaf)"
  shows "k \<notin> set (keys t)"
proof -
  have pl: "plug fs Leaf = t" using descend_plug[OF assms(2)] by simp
  have dir: "\<forall>f \<in> set fs. directed k f" using descend_directed[OF assms(2)] by simp
  have nd: "nodes t = nl fs @ nodes Leaf @ nr fs" using nodes_plug[of fs Leaf] pl by simp
  have "sorted_wrt (<) (map (\<lambda>x. fst (snd x)) (nl fs @ nodes Leaf @ nr fs))"
    using assms(1) nd by (simp add: keys_nodes comp_def)
  from directed_bounds[OF this dir] nd show ?thesis
    by (auto simp: keys_nodes)
qed

section \<open>Claims on the trees and on the agreement of the structures\<close>

lemma linearSearch_absent: "k \<notin> fullName ` set data \<Longrightarrow> linearSearch data k = []"
  by (auto simp: linearSearch_filter filter_empty_conv)

text \<open>
  Claim C1. After every call to \<open>RBTree::insert\<close> the balanced tree has all red-black
  invariants. Starting from the empty tree, every sequence of insertions returns (no
  null dereference, no divergence) and leaves a state whose store holds a tree from
  \<open>root\<close> with the ordering invariant, a black root, no red node with a red parent and
  the same number of black nodes on every path from a node to a null reference; and
  from any such state one more insertion returns and leaves such a state. That every
  node is red or black holds by the type of the colour field.
\<close>

theorem insert_keeps_red_black:
  "(\<exists>T t. RBTree_inserts data ps RBTree_empty = Some T \<and> red_black T t)
   \<and> (red_black T0 t0 \<longrightarrow> (\<exists>T' t'. RBTree_insert data p T0 = Some T' \<and> red_black T' t'))"
proof
  from RBTree_inserts_correct[OF rbt_inv_empty, of data ps]
  show "\<exists>T t. RBTree_inserts data ps RBTree_empty = Some T \<and> red_black T t"
    by (auto simp: red_black_rbt_inv)
next
  show "red_black T0 t0 \<longrightarrow> (\<exists>T' t'. RBTree_insert data p T0 = Some T' \<and> red_black T' t')"
  proof
    assume "red_black T0 t0"
    then have "rbt_inv T0 t0" by (simp only: red_black_rbt_inv)
    from RBTree_insert_correct[OF this, of data p]
    show "\<exists>T' t'. RBTree_insert data p T0 = Some T' \<and> red_black T' t'"
      by (auto simp: red_black_rbt_inv)
  qed
qed

theorem insert_keeps_red_black_witness:
  "red_black RBTree_empty Leaf
   \<and> (\<exists>T t. RBTree_inserts [passenger ''a'', passenger ''b'', passenger ''c''] [0, 1, 2]
               RBTree_empty = Some T \<and> red_black T t)
   \<and> (\<exists>T' t'. RBTree_insert [passenger ''a'', passenger ''b'', passenger ''c''] 0
               RBTree_empty = Some T' \<and> red_black T' t')
   \<and> map_option root (RBTree_build [passenger ''a'', passenger ''b'', passenger ''c'']) = Some (Some 1)"
proof -
  have e: "red_black RBTree_empty Leaf"
    by (simp add: red_black_rbt_inv rbt_inv_empty)
  note th = insert_keeps_red_black[of "[passenger ''a'', passenger ''b'', passenger ''c'']"
      "[0, 1, 2]" RBTree_empty Leaf 0]
  have r: "map_option root (RBTree_build [passenger ''a'', passenger ''b'', passenger ''c'']) = Some (Some 1)"
    by code_simp
  from th e r show ?thesis by blast
qed

text \<open>
  Claim C4. When \<open>RBTree::insert\<close> is called with a record whose key already exists in
  the tree, the call returns and the new state is the old state with one change: the
  node that holds the key has the reference appended to its payload. The root pointer,
  the set of nodes, every key, colour, parent link and child link are the old ones, so
  no rotation and no recolouring has taken effect.
\<close>

theorem duplicate_insert_frame:
  assumes "red_black T t" "fullName (data ! p) \<in> set (keys t)"
  shows "\<exists>a n. a \<in> set (addrs t) \<and> store T a = Some n \<and> key n = fullName (data ! p)
           \<and> RBTree_insert data p T = Some (T\<lparr>store := (store T)(a \<mapsto> n\<lparr>payload := payload n @ [p]\<rparr>)\<rparr>)"
proof -
  let ?k = "fullName (data ! p)"
  from assms(1) have inv: "rbt_inv T t" by (simp only: red_black_rbt_inv)
  then have z: "zrep T [] t" and srt: "sorted_wrt (<) (keys t)"
    by (simp_all add: rbt_inv_def)
  obtain fs t0 where d: "descend ?k [] t = (fs, t0)" by force
  have "t0 \<noteq> Leaf" using descend_Leaf_absent[OF srt, of ?k fs] d assms(2) by auto
  with descend_result[OF d] obtain l a ps c r where t0: "t0 = Node l a ?k ps c r" by auto
  from insert_found[OF z d[unfolded t0]]
  have i: "RBTree_insert data p T =
           Some (T\<lparr>store := (store T)(a \<mapsto> \<lparr>key = ?k, payload = ps @ [p], color = c,
                     parent = top fs, left = ptr_of l, right = ptr_of r\<rparr>)\<rparr>)"
    and st: "store T a = Some \<lparr>key = ?k, payload = ps, color = c,
                     parent = top fs, left = ptr_of l, right = ptr_of r\<rparr>"
    and pl: "t = plug fs (Node l a ?k ps c r)"
    by simp_all
  have "a \<in> set (addrs t)" unfolding pl by (simp add: zaddrs_plug)
  with i st show ?thesis
    by (intro exI[of _ a] exI[of _ "\<lparr>key = ?k, payload = ps, color = c,
                     parent = top fs, left = ptr_of l, right = ptr_of r\<rparr>"]) simp
qed

theorem duplicate_insert_frame_witness:
  "red_black \<lparr>store = [0 \<mapsto> \<lparr>key = ''alice'', payload = [0], color = BLACK, parent = None,
                              left = None, right = None\<rparr>], root = Some 0, allocated = 1\<rparr>
      (Node Leaf 0 ''alice'' [0] BLACK Leaf)
   \<and> fullName ([passenger ''alice'', passenger ''bob'', passenger ''alice''] ! 2)
        \<in> set (keys (Node Leaf 0 ''alice'' [0] BLACK Leaf))
   \<and> RBTree_insert [passenger ''alice'', passenger ''bob'', passenger ''alice''] 2
        \<lparr>store = [0 \<mapsto> \<lparr>key = ''alice'', payload = [0], color = BLACK, parent = None,
                              left = None, right = None\<rparr>], root = Some 0, allocated = 1\<rparr>
      = Some \<lparr>store = [0 \<mapsto> \<lparr>key = ''alice'', payload = [0, 2], color = BLACK, parent = None,
                              left = None, right = None\<rparr>], root = Some 0, allocated = 1\<rparr>"
proof -
  let ?T = "\<lparr>store = [0 \<mapsto> \<lparr>key = ''alice'', payload = [0], color = BLACK, parent = None,
                              left = None, right = None\<rparr>], root = Some 0, allocated = 1\<rparr>"
  let ?t = "Node Leaf 0 ''alice'' [0] BLACK Leaf"
  let ?d = "[passenger ''alice'', passenger ''bob'', passenger ''alice'']"
  have rb: "red_black ?T ?t"
    by (simp add: red_black_def path_balanced_def)
  have k: "fullName (?d ! 2) \<in> set (keys ?t)"
    by (simp add: passenger_def)
  from duplicate_insert_frame[OF rb k] have
    "RBTree_insert ?d 2 ?T = Some \<lparr>store = [0 \<mapsto> \<lparr>key = ''alice'', payload = [0, 2],
        color = BLACK, parent = None, left = None, right = None\<rparr>], root = Some 0, allocated = 1\<rparr>"
    by auto
  with rb k show ?thesis by blast
qed

text \<open>
  Claim C10. For every dataset and every key (present or not), after inserting all
  records in dataset order, \<open>BST::search\<close>, \<open>RBTree::search\<close> and \<open>HashTable::search\<close>
  return element for element the sequence of \<open>linearSearch\<close>'s ascending indices, read
  as references to the records: the matches in dataset insertion order. The hash table
  is built with a bucket count greater than zero.
\<close>

theorem search_order_agreement:
  assumes "nBuckets \<noteq> 0"
  shows "\<exists>rbt ht. RBTree_build data = Some rbt \<and> HashTable_build sc nBuckets data = Some ht
           \<and> BST_search k (BST_build data) = linearSearch data k
           \<and> RBTree_search k rbt = Some (linearSearch data k)
           \<and> HashTable_search sc k ht = Some (linearSearch data k)"
  using RBTree_search_build[of data k] HashTable_search_build[OF assms, of sc data k]
    BST_search_build[of k data]
  by blast

theorem search_order_agreement_witness:
  "(7 :: size_t) \<noteq> 0
   \<and> (\<exists>rbt ht. RBTree_build [passenger ''alice'', passenger ''bob'', passenger ''alice''] = Some rbt
         \<and> HashTable_build False 7 [passenger ''alice'', passenger ''bob'', passenger ''alice''] = Some ht
         \<and> BST_search ''alice'' (BST_build [passenger ''alice'', passenger ''bob'', passenger ''alice'']) = [0, 2]
         \<and> RBTree_search ''alice'' rbt = Some [0, 2]
         \<and> HashTable_search False ''alice'' ht = Some [0, 2])"
proof -
  let ?d = "[passenger ''alice'', passenger ''bob'', passenger ''alice'']"
  have n: "(7 :: size_t) \<noteq> 0" by simp
  have l: "linearSearch ?d ''alice'' = [0, 2]"
    by (simp add: linearSearch_filter passenger_def upt_rec)
  from search_order_agreement[OF n, of ?d False "''alice''"] l n show ?thesis by simp
qed

text \<open>
  Claim C2. For every dataset and every key (in particular every key present in it),
  after inserting every record into the unbalanced tree, the balanced tree and the hash
  table (bucket count greater than zero), the multisets of record references returned
  by the three searches are identical, and they equal the multiset of \<open>linearSearch\<close>'s
  indices, as references and as the records these refer to.
\<close>

theorem search_multiset_agreement:
  assumes "nBuckets \<noteq> 0"
  shows "\<exists>rbt ht b r h. RBTree_build data = Some rbt \<and> HashTable_build sc nBuckets data = Some ht
           \<and> BST_search k (BST_build data) = b \<and> RBTree_search k rbt = Some r
           \<and> HashTable_search sc k ht = Some h
           \<and> mset b = mset r \<and> mset r = mset h \<and> mset h = mset (linearSearch data k)
           \<and> mset (map ((!) data) h) = mset (map ((!) data) (linearSearch data k))"
proof -
  from RBTree_search_build[of data k] obtain rbt where
    r: "RBTree_build data = Some rbt" "RBTree_search k rbt = Some (linearSearch data k)"
    by blast
  from HashTable_search_build[OF assms, of sc data k] obtain ht where
    h: "HashTable_build sc nBuckets data = Some ht"
       "HashTable_search sc k ht = Some (linearSearch data k)"
    by blast
  from r h BST_search_build[of k data] show ?thesis by simp
qed

theorem search_multiset_agreement_witness:
  "(7 :: size_t) \<noteq> 0
   \<and> (\<exists>rbt ht b r h. RBTree_build [passenger ''alice'', passenger ''bob'', passenger ''alice''] = Some rbt
         \<and> HashTable_build False 7 [passenger ''alice'', passenger ''bob'', passenger ''alice''] = Some ht
         \<and> BST_search ''alice'' (BST_build [passenger ''alice'', passenger ''bob'', passenger ''alice'']) = b
         \<and> RBTree_search ''alice'' rbt = Some r
         \<and> HashTable_search False ''alice'' ht = Some h
         \<and> mset b = mset r \<and> mset r = mset h \<and> mset h = {#0, 2#})"
proof -
  let ?d = "[passenger ''alice'', passenger ''bob'', passenger ''alice'']"
  have n: "(7 :: size_t) \<noteq> 0" by simp
  have l: "linearSearch ?d ''alice'' = [0, 2]"
    by (simp add: linearSearch_filter passenger_def upt_rec)
  from search_multiset_agreement[OF n, of ?d False "''alice''"] l n show ?thesis by auto
qed

text \<open>
  Claim C7. For a key absent from the dataset, every structure built from the dataset
  returns an empty result, and returns it as a result: linear search and the unbalanced
  tree are total, the balanced tree's search returns \<open>Some []\<close>, and so does the hash
  table's for a bucket count greater than zero (the constructor's contract).
\<close>

theorem search_miss_empty:
  assumes "k \<notin> fullName ` set data" "nBuckets \<noteq> 0"
  shows "linearSearch data k = [] \<and> BST_search k (BST_build data) = []
         \<and> (\<exists>rbt. RBTree_build data = Some rbt \<and> RBTree_search k rbt = Some [])
         \<and> (\<exists>ht. HashTable_build sc nBuckets data = Some ht \<and> HashTable_search sc k ht = Some [])"
  using RBTree_search_build[of data k] HashTable_search_build[OF assms(2), of sc data k]
    BST_search_build[of k data] linearSearch_absent[OF assms(1)]
  by simp

theorem search_miss_empty_witness:
  "''carol'' \<notin> fullName ` set [passenger ''alice'', passenger ''bob'', passenger ''alice'']
   \<and> (7 :: size_t) \<noteq> 0
   \<and> linearSearch [passenger ''alice'', passenger ''bob'', passenger ''alice''] ''carol'' = []
   \<and> BST_search ''carol'' (BST_build [passenger ''alice'', passenger ''bob'', passenger ''alice'']) = []
   \<and> (\<exists>rbt. RBTree_build [passenger ''alice'', passenger ''bob'', passenger ''alice''] = Some rbt
         \<and> RBTree_search ''carol'' rbt = Some [])
   \<and> (\<exists>ht. HashTable_build False 7 [passenger ''alice'', passenger ''bob'', passenger ''alice''] = Some ht
         \<and> HashTable_search False ''carol'' ht = Some [])"
proof -
  let ?d = "[passenger ''alice'', passenger ''bob'', passenger ''alice'']"
  have n: "(7 :: size_t) \<noteq> 0" by simp
  have a: "''carol'' \<notin> fullName ` set ?d" by (simp add: passenger_def)
  from search_miss_empty[OF a n, of False] a n show ?thesis by blast
qed

section \<open>Claims on the generator and the harness\<close>

















end
